theory Spec2Isabelle
  imports Complex_Main "HOL-Library.Word"
begin

section \<open>The compressed vector writer of libE57Format\<close>

text \<open>
  A shallow embedding of \<^verbatim>\<open>src/CompressedVectorWriterImpl.cpp\<close>. The writer packs the
  output of one encoder per record field into data packets, writes one index packet when it is
  closed and then patches the section header that it reserved when it was constructed.

  Counters, record indices and file offsets (\<^verbatim>\<open>uint64_t\<close> in the source) are natural
  numbers: the model is the program below the wrap-around of a 64-bit counter. The two
  places where the source subtracts unsigned numbers that may be in the wrong order are written
  with the wrap-around (\<open>size_t_sub\<close>).
\<close>

subsection \<open>Sizes and error codes\<close>

definition DATA_PACKET_MAX :: nat where
  "DATA_PACKET_MAX = 65536"

definition sizeof_DataPacketHeader :: nat where
  "sizeof_DataPacketHeader = 6"

definition sizeof_uint16 :: nat where
  "sizeof_uint16 = 2"

definition sizeof_CompressedVectorSectionHeader :: nat where
  "sizeof_CompressedVectorSectionHeader = 32"

definition sizeof_IndexPacketHeader :: nat where
  "sizeof_IndexPacketHeader = 16"

definition sizeof_IndexPacketEntry :: nat where
  "sizeof_IndexPacketEntry = 16"

definition E57_TARGET_PACKET_SIZE :: nat where
  "E57_TARGET_PACKET_SIZE = DATA_PACKET_MAX * 3 div 4"

text \<open>
  The exceptions of the source, and two outcomes that are not exceptions of the library:
  \<open>StdOutOfRange\<close> is the \<^verbatim>\<open>std::out_of_range\<close> of \<^verbatim>\<open>vector::at\<close>, and
  \<open>UndefinedBehaviour\<close> marks an execution that leaves defined C++ (a store behind the end of
  the 64 KiB packet buffer, a float converted to an \<^verbatim>\<open>unsigned\<close> that cannot hold it).
\<close>

datatype error =
    ErrorBadAPIArgument
  | ErrorBuffersNotCompatible
  | ErrorWriterNotOpen
  | ErrorInternal
  | StdOutOfRange
  | UndefinedBehaviour

text \<open>Subtraction of two \<^verbatim>\<open>size_t\<close> values (64 bits), for operands below \<open>2 ^ 64\<close>.\<close>

definition size_t_sub :: "nat \<Rightarrow> nat \<Rightarrow> nat" where
  "size_t_sub a b = (if b \<le> a then a - b else a + 2 ^ 64 - b)"

subsection \<open>Single precision arithmetic\<close>

text \<open>
  \<^verbatim>\<open>packetWrite\<close> computes the share of each bytestream in \<^verbatim>\<open>float\<close>. The values that occur
  are finite and not negative, so a float is a pair \<open>(m, e)\<close> that stands for \<open>m * 2 ^ e\<close>,
  and every operation rounds its exact result to 24 significant bits, to the nearest value and
  to an even significand on a tie (IEEE 754 binary32, the default rounding mode). The exponent
  is not bounded: the quotients and products of \<^verbatim>\<open>packetWrite\<close> that stay below \<open>2 ^ 32\<close>
  are in the range of normal numbers, and larger ones cannot be converted to
  \<^verbatim>\<open>unsigned\<close> anyway.
\<close>

type_synonym float32 = "nat \<times> int"

definition fval :: "float32 \<Rightarrow> real" where
  "fval x = real (fst x) * 2 powi (snd x)"

fun blen :: "nat \<Rightarrow> nat" where
  "blen n = (if n = 0 then 0 else Suc (blen (n div 2)))"

declare blen.simps [simp del]

definition round_even :: "nat \<Rightarrow> nat \<Rightarrow> nat" where
  "round_even num den =
     (let d = num div den; r = num mod den
      in if 2 * r < den then d
         else if den < 2 * r then d + 1
         else if even d then d else d + 1)"

text \<open>The relative error of one rounding is at most \<open>float_eps\<close>.\<close>

definition float_eps :: real where
  "float_eps = 1 / 2 ^ 24"

text \<open>\<open>fround p q s\<close> is the float nearest to \<open>p / q * 2 ^ s\<close>.\<close>

definition fround :: "nat \<Rightarrow> nat \<Rightarrow> int \<Rightarrow> float32" where
  "fround p q s =
     (if p = 0 then (0, 0)
      else let t0 = int (blen p) - int (blen q) - 24;
               t = (if p * 2 ^ nat (- t0) < 2 ^ 24 * (q * 2 ^ nat t0) then t0 else t0 + 1)
           in (round_even (p * 2 ^ nat (- t)) (q * 2 ^ nat t), t + s))"

text \<open>\<^verbatim>\<open>static_cast<float>\<close> of a \<^verbatim>\<open>size_t\<close>, \<^verbatim>\<open>/\<close>, \<^verbatim>\<open>*\<close> and \<^verbatim>\<open>std::floor\<close>.\<close>

definition of_size :: "nat \<Rightarrow> float32" where
  "of_size n = fround n 1 0"

definition fdiv :: "float32 \<Rightarrow> float32 \<Rightarrow> float32" where
  "fdiv x y = fround (fst x) (fst y) (snd x - snd y)"

definition fmul :: "float32 \<Rightarrow> float32 \<Rightarrow> float32" where
  "fmul x y = fround (fst x * fst y) 1 (snd x + snd y)"

definition ffloor :: "float32 \<Rightarrow> nat" where
  "ffloor x = (if 0 \<le> snd x then fst x * 2 ^ nat (snd x) else fst x div 2 ^ nat (- snd x))"

subsection \<open>Data\<close>

type_synonym byte = "8 word"

record SourceDestBuffer =
  pathName :: string
  capacity :: nat
  nextIndex :: nat

definition rewind :: "SourceDestBuffer \<Rightarrow> SourceDestBuffer" where
  "rewind b = b\<lparr>nextIndex := 0\<rparr>"

text \<open>
  The buffers of a writer pass \<^verbatim>\<open>checkBuffers\<close> of the prototype, which is not in the source
  file. \<^verbatim>\<open>write\<close> compares the requested count with the capacity of the first buffer only;
  \<open>sameCapacity\<close> is the property of a buffer sequence that makes the first buffer stand
  for all of them.
\<close>

definition sameCapacity :: "SourceDestBuffer list \<Rightarrow> bool" where
  "sameCapacity bs \<longleftrightarrow> map capacity bs = replicate (length bs) (capacity (hd bs))"

record DataPacketHeader =
  packetType :: byte
  packetFlags :: byte
  packetLogicalLengthMinus1 :: "16 word"
  bytestreamCount :: "16 word"

definition DATA_PACKET :: byte where
  "DATA_PACKET = 1"

text \<open>\<^verbatim>\<open>DataPacketHeader::reset\<close>: the type is set, everything else is zero.\<close>

definition header_reset :: DataPacketHeader where
  "header_reset =
     \<lparr>packetType = DATA_PACKET, packetFlags = 0, packetLogicalLengthMinus1 = 0,
      bytestreamCount = 0\<rparr>"

record DataPacket =
  header :: DataPacketHeader
  bytestreamBufferLength :: "16 word list"
  payload :: "byte list"

record IndexPacket =
  indexLogicalLengthMinus1 :: nat
  entryCount :: nat
  chunkPhysicalOffset :: nat

record CompressedVectorSectionHeader =
  headerSectionLogicalLength :: nat
  headerDataPhysicalOffset :: nat
  headerIndexPhysicalOffset :: nat

text \<open>
  The destination file is the sequence of the writes it received, oldest first, each with
  the logical offset that was sought, the number of bytes and the structure that was written.
\<close>

datatype fileContent =
    DataPacketBytes DataPacket
  | IndexPacketBytes IndexPacket
  | SectionHeaderBytes CompressedVectorSectionHeader

record fileWrite =
  atLogical :: nat
  byteCount :: nat
  content :: fileContent

record ImageFile =
  unusedLogicalStart :: nat
  writerCount :: int
  fileWrites :: "fileWrite list"

text \<open>
  Modelled from the spec: \<^verbatim>\<open>ImageFileImpl::allocateSpace\<close>, \<^verbatim>\<open>incrWriterCount\<close> and
  \<^verbatim>\<open>decrWriterCount\<close> are not in the source file. The allocation reserves contiguous
  logical bytes at the frontier and advances it; the counters count the open writers.
\<close>

definition allocateSpace :: "ImageFile \<Rightarrow> nat \<Rightarrow> nat \<times> ImageFile" where
  "allocateSpace f n = (unusedLogicalStart f, f\<lparr>unusedLogicalStart := unusedLogicalStart f + n\<rparr>)"

definition incrWriterCount :: "ImageFile \<Rightarrow> ImageFile" where
  "incrWriterCount f = f\<lparr>writerCount := writerCount f + 1\<rparr>"

definition decrWriterCount :: "ImageFile \<Rightarrow> ImageFile" where
  "decrWriterCount f = f\<lparr>writerCount := writerCount f - 1\<rparr>"

definition file_write :: "ImageFile \<Rightarrow> nat \<Rightarrow> nat \<Rightarrow> fileContent \<Rightarrow> ImageFile" where
  "file_write f off n c =
     f\<lparr>fileWrites := fileWrites f @ [\<lparr>atLogical = off, byteCount = n, content = c\<rparr>]\<rparr>"

record CompressedVectorNode =
  nodeRecordCount :: nat
  binarySectionLogicalStart :: nat

text \<open>
  The encoders are objects behind the abstract class \<^verbatim>\<open>Encoder\<close>: the writer only calls
  their virtual functions. The model takes these functions as a record over an arbitrary type
  \<open>'e\<close> of encoder states.
\<close>

record 'e Encoder =
  bytestreamNumber :: "'e \<Rightarrow> nat"
  currentRecordIndex :: "'e \<Rightarrow> nat"
  processRecords :: "'e \<Rightarrow> nat \<Rightarrow> 'e"
  outputAvailable :: "'e \<Rightarrow> nat"
  outputRead :: "'e \<Rightarrow> nat \<Rightarrow> error + byte list \<times> 'e"
  registerFlushToOutput :: "'e \<Rightarrow> 'e"

text \<open>
  The other collaborators that the source file calls but does not define, and the two
  compile-time validation switches.
\<close>

record 'e Collaborators =
  VALIDATE_BASIC :: bool
  VALIDATION_DEEP :: bool
  logicalToPhysical :: "nat \<Rightarrow> nat"
  checkCompatible :: "SourceDestBuffer \<Rightarrow> SourceDestBuffer \<Rightarrow> error option"
  checkBuffers :: "SourceDestBuffer list \<Rightarrow> error option"
  encoderFactory :: "nat \<Rightarrow> SourceDestBuffer \<Rightarrow> error + 'e"
  dataPacketVerify :: "DataPacket \<Rightarrow> nat \<Rightarrow> error option"
  sectionHeaderVerify :: "CompressedVectorSectionHeader \<Rightarrow> error option"

record 'e CompressedVectorWriterImpl =
  isOpen :: bool
  sbufs :: "SourceDestBuffer list"
  bytestreams :: "'e list"
  sectionHeaderLogicalStart :: nat
  sectionLogicalLength :: nat
  dataPhysicalOffset :: nat
  topIndexPhysicalOffset :: nat
  recordCount :: nat
  dataPacketsCount :: nat
  indexPacketsCount :: nat
  imf :: ImageFile
  cVector :: CompressedVectorNode

text \<open>
  A member function returns its value and the writer as it left it, or the exception it threw
  and the writer as it was when the exception was thrown.
\<close>

type_synonym ('a, 'e) result =
  "error \<times> 'e CompressedVectorWriterImpl + 'a \<times> 'e CompressedVectorWriterImpl"

subsection \<open>Packets\<close>

definition totalOutputAvailable :: "'e Encoder \<Rightarrow> 'e CompressedVectorWriterImpl \<Rightarrow> nat" where
  "totalOutputAvailable E w = sum_list (map (outputAvailable E) (bytestreams w))"

definition currentPacketSize :: "'e Encoder \<Rightarrow> 'e CompressedVectorWriterImpl \<Rightarrow> nat" where
  "currentPacketSize E w =
     sizeof_DataPacketHeader + length (bytestreams w) * sizeof_uint16 + totalOutputAvailable E w"

definition flush ::
  "'e Encoder \<Rightarrow> 'e CompressedVectorWriterImpl \<Rightarrow> 'e CompressedVectorWriterImpl" where
  "flush E w = w\<lparr>bytestreams := map (registerFlushToOutput E) (bytestreams w)\<rparr>"

definition checkWriterOpen :: "'e CompressedVectorWriterImpl \<Rightarrow> error option" where
  "checkWriterOpen w = (if \<not> isOpen w then Some ErrorWriterNotOpen else None)"

text \<open>Lines 440 to 442: the payload that fits beside the header and the length table.\<close>

definition cPacketMaxPayloadBytes :: "nat \<Rightarrow> nat" where
  "cPacketMaxPayloadBytes n =
     size_t_sub (size_t_sub DATA_PACKET_MAX sizeof_DataPacketHeader) (n * sizeof_uint16)"

text \<open>
  Lines 469 to 474: the share of each bytestream when the output does not fit. The product is
  rounded down and converted to \<^verbatim>\<open>unsigned\<close> (32 bits).
\<close>

fun proportionalCounts :: "float32 \<Rightarrow> nat list \<Rightarrow> error + nat list" where
  "proportionalCounts f [] = Inr []"
| "proportionalCounts f (a # as) =
     (let c = ffloor (fmul f (of_size a))
      in if c < 2 ^ 32
         then (case proportionalCounts f as of
                 Inl e \<Rightarrow> Inl e
               | Inr cs \<Rightarrow> Inr (c # cs))
         else Inl UndefinedBehaviour)"

text \<open>
  Lines 451 to 475, as a function of the \<^verbatim>\<open>outputAvailable()\<close> of the bytestreams, which
  \<^verbatim>\<open>packetWrite\<close> calls with a positive total.
\<close>

definition packetCounts :: "nat list \<Rightarrow> error + nat list" where
  "packetCounts avail =
     (let cTotalOutput = sum_list avail;
          cPacketMaxPayloadBytes = cPacketMaxPayloadBytes (length avail)
      in if cTotalOutput < cPacketMaxPayloadBytes then Inr avail
         else proportionalCounts
                (fdiv (of_size (size_t_sub cPacketMaxPayloadBytes 1)) (of_size cTotalOutput))
                avail)"

text \<open>
  Lines 512 to 519: the length table is stored behind the header, each count cast to 16 bits.
  The packet buffer has \<open>DATA_PACKET_MAX\<close> bytes; a table that does not fit is stored behind
  its end.
\<close>

definition bsbLength :: "nat list \<Rightarrow> error + 16 word list" where
  "bsbLength count =
     (if DATA_PACKET_MAX < sizeof_DataPacketHeader + length count * sizeof_uint16
      then Inl UndefinedBehaviour
      else Inr (map of_nat count))"

text \<open>
  Lines 528 to 545: the bytes of each bytestream are read into the packet at offset \<open>p\<close>.
  The result is the exception (if any), the bytes read, the encoders as they are left and the
  offset of the end of the data.
\<close>

fun outputReadAll ::
  "'e Encoder \<Rightarrow> bool \<Rightarrow> 'e list \<Rightarrow> nat list \<Rightarrow> nat \<Rightarrow> error option \<times> byte list \<times> 'e list \<times> nat" where
  "outputReadAll E vb [] count p = (None, [], [], p)"
| "outputReadAll E vb (e # es) [] p = (Some StdOutOfRange, [], e # es, p)"
| "outputReadAll E vb (e # es) (n # count) p =
     (if DATA_PACKET_MAX < p + n
      then (Some (if vb then ErrorInternal else UndefinedBehaviour), [], e # es, p)
      else (case outputRead E e n of
              Inl err \<Rightarrow> (Some err, [], e # es, p)
            | Inr (bs, e') \<Rightarrow>
                (case outputReadAll E vb es count (p + n) of
                   (r, rest, es', p') \<Rightarrow> (r, bs @ rest, e' # es', p'))))"

text \<open>Lines 565 to 580: zero padding to a multiple of four.\<close>

function padPacket :: "nat \<Rightarrow> nat \<Rightarrow> error + nat" where
  "padPacket p packetLength =
     (if packetLength mod 4 \<noteq> 0
      then (if DATA_PACKET_MAX - 1 \<le> p then Inl ErrorInternal
            else padPacket (p + 1) (packetLength + 1))
      else Inr packetLength)"
  by pat_completeness auto
termination
proof (relation "measure (\<lambda>(p, n). (4 - n mod 4) mod 4)")
  show "wf (measure (\<lambda>(p, n). (4 - n mod 4) mod 4))" by simp
next
  fix p n :: nat
  assume a: "n mod 4 \<noteq> 0"
  have "(n + 1) mod 4 = (n mod 4 + 1) mod 4" by (rule mod_add_left_eq [symmetric])
  moreover have "n mod 4 < 4" by simp
  ultimately have "(4 - (n + 1) mod 4) mod 4 < (4 - n mod 4) mod 4"
    using a by (cases "n mod 4 = 1"; cases "n mod 4 = 2"; cases "n mod 4 = 3") auto
  then show "((p + 1, n + 1), (p, n)) \<in> measure (\<lambda>(p, n). (4 - n mod 4) mod 4)" by simp
qed

declare padPacket.simps [simp del]

text \<open>Lines 636 to 641: the padding of the packet without records, which has no check.\<close>

function padZeroRecords :: "nat \<Rightarrow> nat" where
  "padZeroRecords packetLength =
     (if packetLength mod 4 \<noteq> 0 then padZeroRecords (packetLength + 1) else packetLength)"
  by pat_completeness auto
termination
proof (relation "measure (\<lambda>n. (4 - n mod 4) mod 4)")
  show "wf (measure (\<lambda>n. (4 - n mod 4) mod 4))" by simp
next
  fix n :: nat
  assume a: "n mod 4 \<noteq> 0"
  have "(n + 1) mod 4 = (n mod 4 + 1) mod 4" by (rule mod_add_left_eq [symmetric])
  moreover have "n mod 4 < 4" by simp
  ultimately have "(4 - (n + 1) mod 4) mod 4 < (4 - n mod 4) mod 4"
    using a by (cases "n mod 4 = 1"; cases "n mod 4 = 2"; cases "n mod 4 = 3") auto
  then show "(n + 1, n) \<in> measure (\<lambda>n. (4 - n mod 4) mod 4)" by simp
qed

declare padZeroRecords.simps [simp del]

text \<open>
  Lines 591 to 618 and 649 to 663: the packet is written at the frontier of the file, and
  the physical offset of the first data packet of the section is kept.
\<close>

definition writeDataPacket ::
  "'e Collaborators \<Rightarrow> 'e CompressedVectorWriterImpl \<Rightarrow> DataPacket \<Rightarrow> nat
   \<Rightarrow> nat \<times> 'e CompressedVectorWriterImpl" where
  "writeDataPacket X w pkt packetLength =
     (case allocateSpace (imf w) packetLength of
        (packetLogicalOffset, f) \<Rightarrow>
          let packetPhysicalOffset = logicalToPhysical X packetLogicalOffset;
              w1 = w\<lparr>imf := file_write f packetLogicalOffset packetLength (DataPacketBytes pkt)\<rparr>;
              w2 = (if dataPacketsCount w1 = 0
                    then w1\<lparr>dataPhysicalOffset := packetPhysicalOffset\<rparr> else w1)
          in (packetPhysicalOffset, w2\<lparr>dataPacketsCount := dataPacketsCount w2 + 1\<rparr>))"

text \<open>Lines 582 to 586: the header, once the length of the packet is known.\<close>

definition dataPacketHeader :: "nat \<Rightarrow> nat \<Rightarrow> DataPacketHeader" where
  "dataPacketHeader packetLength cNumByteStreams =
     header_reset
       \<lparr>packetLogicalLengthMinus1 := of_nat (packetLength - 1),
        bytestreamCount := of_nat cNumByteStreams\<rparr>"

text \<open>Lines 547 to 618: from the end of the data at offset \<open>p\<close> to the write.\<close>

definition packetFinish ::
  "'e Collaborators \<Rightarrow> 'e CompressedVectorWriterImpl \<Rightarrow> nat list \<Rightarrow> 16 word list \<Rightarrow> byte list
   \<Rightarrow> nat \<Rightarrow> (nat, 'e) result" where
  "packetFinish X w count bsb bytes p =
     (let cNumByteStreams = length (bytestreams w)
      in if VALIDATE_BASIC X \<and>
            p \<noteq> sizeof_DataPacketHeader + cNumByteStreams * sizeof_uint16 + sum_list count
         then Inl (ErrorInternal, w)
         else case padPacket p p of
           Inl e \<Rightarrow> Inl (e, w)
         | Inr packetLength \<Rightarrow>
             let pkt = \<lparr>header = dataPacketHeader packetLength cNumByteStreams,
                        bytestreamBufferLength = bsb,
                        payload = bytes @ replicate (packetLength - p) 0\<rparr>
             in (case dataPacketVerify X pkt packetLength of
                   Some e \<Rightarrow> Inl (e, w)
                 | None \<Rightarrow> Inr (writeDataPacket X w pkt packetLength)))"

definition packetWrite ::
  "'e Encoder \<Rightarrow> 'e Collaborators \<Rightarrow> 'e CompressedVectorWriterImpl \<Rightarrow> (nat, 'e) result" where
  "packetWrite E X w =
     (let cTotalOutput = totalOutputAvailable E w;
          cNumByteStreams = length (bytestreams w)
      in if cTotalOutput = 0 then Inr (0, w)
         else (case packetCounts (map (outputAvailable E) (bytestreams w)) of
                 Inl e \<Rightarrow> Inl (e, w)
               | Inr count \<Rightarrow>
                   if VALIDATE_BASIC X \<and> cPacketMaxPayloadBytes cNumByteStreams < sum_list count
                   then Inl (ErrorInternal, w)
                   else (case bsbLength count of
                           Inl e \<Rightarrow> Inl (e, w)
                         | Inr bsb \<Rightarrow>
                             (case outputReadAll E (VALIDATE_BASIC X) (bytestreams w) count
                                     (sizeof_DataPacketHeader + cNumByteStreams * sizeof_uint16) of
                                (r, bytes, es, p) \<Rightarrow>
                                  (case r of
                                     Some e \<Rightarrow> Inl (e, w\<lparr>bytestreams := es\<rparr>)
                                   | None \<Rightarrow>
                                       packetFinish X (w\<lparr>bytestreams := es\<rparr>)
                                         count bsb bytes p)))))"

definition packetWriteZeroRecords ::
  "'e Collaborators \<Rightarrow> 'e CompressedVectorWriterImpl \<Rightarrow> (unit, 'e) result" where
  "packetWriteZeroRecords X w =
     (let packetLength = padZeroRecords sizeof_DataPacketHeader;
          pkt = \<lparr>header = dataPacketHeader packetLength 0,
                 bytestreamBufferLength = [],
                 payload = replicate (packetLength - sizeof_DataPacketHeader) 0\<rparr>
      in case dataPacketVerify X pkt packetLength of
           Some e \<Rightarrow> Inl (e, w)
         | None \<Rightarrow> Inr ((), snd (writeDataPacket X w pkt packetLength)))"

definition packetWriteIndex ::
  "'e Collaborators \<Rightarrow> 'e CompressedVectorWriterImpl \<Rightarrow> 'e CompressedVectorWriterImpl" where
  "packetWriteIndex X w =
     (let cPacketLength = sizeof_IndexPacketHeader + sizeof_IndexPacketEntry;
          indexPacket = \<lparr>indexLogicalLengthMinus1 = cPacketLength - 1, entryCount = 1,
                         chunkPhysicalOffset = dataPhysicalOffset w\<rparr>
      in case allocateSpace (imf w) cPacketLength of
           (packetLogicalOffset, f) \<Rightarrow>
             w\<lparr>topIndexPhysicalOffset := logicalToPhysical X packetLogicalOffset,
               imf := file_write f packetLogicalOffset cPacketLength (IndexPacketBytes indexPacket),
               indexPacketsCount := indexPacketsCount w + 1\<rparr>)"

subsection \<open>The public operations\<close>

text \<open>
  The two loops of the writer run as long as the encoders make them: they take fuel, one unit
  for each iteration, and \<open>None\<close> is a loop that did not end within the fuel.
\<close>

text \<open>Lines 180 to 184 of \<^verbatim>\<open>close\<close>.\<close>

fun drainLoop ::
  "nat \<Rightarrow> 'e Encoder \<Rightarrow> 'e Collaborators \<Rightarrow> 'e CompressedVectorWriterImpl
   \<Rightarrow> (unit, 'e) result option" where
  "drainLoop 0 E X w =
     (if 0 < totalOutputAvailable E w then None else Some (Inr ((), w)))"
| "drainLoop (Suc fuel) E X w =
     (if 0 < totalOutputAvailable E w
      then (case packetWrite E X w of
              Inl err \<Rightarrow> Some (Inl err)
            | Inr (off, w1) \<Rightarrow> drainLoop fuel E X (flush E w1))
      else Some (Inr ((), w)))"

text \<open>Lines 186 to 223 of \<^verbatim>\<open>close\<close>.\<close>

definition closeSection ::
  "'e Collaborators \<Rightarrow> 'e CompressedVectorWriterImpl \<Rightarrow> (unit, 'e) result" where
  "closeSection X w =
     (let w1 = packetWriteIndex X w;
          w2 = w1\<lparr>sectionLogicalLength :=
                    size_t_sub (unusedLogicalStart (imf w1)) (sectionHeaderLogicalStart w1)\<rparr>;
          hdr = \<lparr>headerSectionLogicalLength = sectionLogicalLength w2,
                 headerDataPhysicalOffset = dataPhysicalOffset w2,
                 headerIndexPhysicalOffset = topIndexPhysicalOffset w2\<rparr>
      in case (if VALIDATE_BASIC X then sectionHeaderVerify X hdr else None) of
           Some e \<Rightarrow> Inl (e, w2)
         | None \<Rightarrow>
             Inr ((), w2\<lparr>imf := file_write (imf w2) (sectionHeaderLogicalStart w2)
                                   sizeof_CompressedVectorSectionHeader (SectionHeaderBytes hdr),
                          cVector := (cVector w2)
                             \<lparr>nodeRecordCount := recordCount w2,
                              binarySectionLogicalStart := sectionHeaderLogicalStart w2\<rparr>,
                          bytestreams := []\<rparr>))"

definition close ::
  "nat \<Rightarrow> 'e Encoder \<Rightarrow> 'e Collaborators \<Rightarrow> 'e CompressedVectorWriterImpl
   \<Rightarrow> (unit, 'e) result option" where
  "close fuel E X w =
     (let w0 = w\<lparr>imf := decrWriterCount (imf w)\<rparr>
      in if \<not> isOpen w0 then Some (Inr ((), w0))
         else case drainLoop fuel E X (flush E (w0\<lparr>isOpen := False\<rparr>)) of
           None \<Rightarrow> None
         | Some (Inl err) \<Rightarrow> Some (Inl err)
         | Some (Inr (u, w1)) \<Rightarrow> Some (closeSection X w1))"

text \<open>Lines 259 to 266 of \<^verbatim>\<open>setBuffers\<close>: the first incompatible pair throws.\<close>

fun checkCompatibleAll ::
  "'e Collaborators \<Rightarrow> SourceDestBuffer list \<Rightarrow> SourceDestBuffer list \<Rightarrow> error option" where
  "checkCompatibleAll X (oldbuf # olds) (newBuf # news) =
     (case checkCompatible X oldbuf newBuf of
        Some e \<Rightarrow> Some e
      | None \<Rightarrow> checkCompatibleAll X olds news)"
| "checkCompatibleAll X olds news = None"

definition setBuffers ::
  "'e Collaborators \<Rightarrow> SourceDestBuffer list \<Rightarrow> 'e CompressedVectorWriterImpl
   \<Rightarrow> (unit, 'e) result" where
  "setBuffers X newBufs w =
     (case (if sbufs w \<noteq> []
            then (if length (sbufs w) \<noteq> length newBufs then Some ErrorBuffersNotCompatible
                  else checkCompatibleAll X (sbufs w) newBufs)
            else None) of
        Some e \<Rightarrow> Inl (e, w)
      | None \<Rightarrow>
          (case checkBuffers X newBufs of
             Some e \<Rightarrow> Inl (e, w)
           | None \<Rightarrow> Inr ((), w\<lparr>sbufs := newBufs\<rparr>)))"

text \<open>Lines 322 to 326 and 385 to 395 of \<^verbatim>\<open>write\<close>, in \<^verbatim>\<open>uint64_t\<close>.\<close>

definition totalRecordCount ::
  "'e Encoder \<Rightarrow> nat \<Rightarrow> 'e CompressedVectorWriterImpl \<Rightarrow> nat" where
  "totalRecordCount E endRecordIndex w =
     sum_list (map (\<lambda>b. size_t_sub endRecordIndex (currentRecordIndex E b)) (bytestreams w))
       mod 2 ^ 64"

definition processChannel :: "'e Encoder \<Rightarrow> nat \<Rightarrow> 'e \<Rightarrow> 'e" where
  "processChannel E endRecordIndex b =
     (if currentRecordIndex E b < endRecordIndex
      then processRecords E b (min (endRecordIndex - currentRecordIndex E b) 50)
      else b)"

text \<open>Lines 319 to 396 of \<^verbatim>\<open>write\<close>.\<close>

fun writeLoop ::
  "nat \<Rightarrow> 'e Encoder \<Rightarrow> 'e Collaborators \<Rightarrow> nat \<Rightarrow> 'e CompressedVectorWriterImpl
   \<Rightarrow> (unit, 'e) result option" where
  "writeLoop 0 E X endRecordIndex w =
     (if totalRecordCount E endRecordIndex w = 0 then Some (Inr ((), w)) else None)"
| "writeLoop (Suc fuel) E X endRecordIndex w =
     (if totalRecordCount E endRecordIndex w = 0 then Some (Inr ((), w))
      else if E57_TARGET_PACKET_SIZE \<le> currentPacketSize E w
      then (case packetWrite E X w of
              Inl err \<Rightarrow> Some (Inl err)
            | Inr (off, w1) \<Rightarrow> writeLoop fuel E X endRecordIndex w1)
      else writeLoop fuel E X endRecordIndex
             (w\<lparr>bytestreams := map (processChannel E endRecordIndex) (bytestreams w)\<rparr>))"

definition writeRecords ::
  "nat \<Rightarrow> 'e Encoder \<Rightarrow> 'e Collaborators \<Rightarrow> nat \<Rightarrow> 'e CompressedVectorWriterImpl
   \<Rightarrow> (unit, 'e) result option" where
  "writeRecords fuel E X requestedRecordCount w =
     (case checkWriterOpen w of
        Some e \<Rightarrow> Some (Inl (e, w))
      | None \<Rightarrow>
          if requestedRecordCount = 0 then Some (packetWriteZeroRecords X w)
          else (case sbufs w of
                  [] \<Rightarrow> Some (Inl (StdOutOfRange, w))
                | b # bs \<Rightarrow>
                    if capacity b < requestedRecordCount then Some (Inl (ErrorBadAPIArgument, w))
                    else (case writeLoop fuel E X (recordCount w + requestedRecordCount)
                                 (w\<lparr>sbufs := map rewind (sbufs w)\<rparr>) of
                            None \<Rightarrow> None
                          | Some (Inl err) \<Rightarrow> Some (Inl err)
                          | Some (Inr (u, w1)) \<Rightarrow>
                              Some (Inr ((), w1\<lparr>recordCount :=
                                                   recordCount w1 + requestedRecordCount\<rparr>)))))"

text \<open>Lines 277 to 285: the overload that takes new buffers.\<close>

definition writeBuffers ::
  "nat \<Rightarrow> 'e Encoder \<Rightarrow> 'e Collaborators \<Rightarrow> SourceDestBuffer list \<Rightarrow> nat
   \<Rightarrow> 'e CompressedVectorWriterImpl \<Rightarrow> (unit, 'e) result option" where
  "writeBuffers fuel E X newBufs requestedRecordCount w =
     (case setBuffers X newBufs w of
        Inl err \<Rightarrow> Some (Inl err)
      | Inr (u, w1) \<Rightarrow> writeRecords fuel E X requestedRecordCount w1)"

text \<open>Lines 72 to 93 of the constructor: one encoder for each buffer.\<close>

fun makeEncoders :: "'e Collaborators \<Rightarrow> nat \<Rightarrow> SourceDestBuffer list \<Rightarrow> error + 'e list" where
  "makeEncoders X i [] = Inr []"
| "makeEncoders X i (b # bs) =
     (case encoderFactory X i b of
        Inl e \<Rightarrow> Inl e
      | Inr enc \<Rightarrow>
          (case makeEncoders X (Suc i) bs of
             Inl e \<Rightarrow> Inl e
           | Inr encs \<Rightarrow> Inr (enc # encs)))"

text \<open>
  The constructor, for the node and the file the writer is made for. An exception leaves no
  writer behind.
\<close>

definition construct ::
  "'e Encoder \<Rightarrow> 'e Collaborators \<Rightarrow> CompressedVectorNode \<Rightarrow> ImageFile \<Rightarrow> SourceDestBuffer list
   \<Rightarrow> error + 'e CompressedVectorWriterImpl" where
  "construct E X ni file newBufs =
     (if newBufs = [] then Inl ErrorBadAPIArgument
      else case checkBuffers X newBufs of
        Some e \<Rightarrow> Inl e
      | None \<Rightarrow>
          (case makeEncoders X 0 newBufs of
             Inl e \<Rightarrow> Inl e
           | Inr encs \<Rightarrow>
               let sorted = sort_key (bytestreamNumber E) encs
               in if VALIDATION_DEEP X \<and>
                     map (bytestreamNumber E) sorted \<noteq> [0..<length sorted]
                  then Inl ErrorInternal
                  else (case allocateSpace file sizeof_CompressedVectorSectionHeader of
                          (start, f) \<Rightarrow>
                            Inr \<lparr>isOpen = True, sbufs = newBufs, bytestreams = sorted,
                                 sectionHeaderLogicalStart = start, sectionLogicalLength = 0,
                                 dataPhysicalOffset = 0, topIndexPhysicalOffset = 0,
                                 recordCount = 0, dataPacketsCount = 0, indexPacketsCount = 0,
                                 imf = incrWriterCount f, cVector = ni\<rparr>)))"

subsection \<open>Traces\<close>

datatype operation =
    Write nat
  | WriteBuffers "SourceDestBuffer list" nat
  | Close

definition step ::
  "nat \<Rightarrow> 'e Encoder \<Rightarrow> 'e Collaborators \<Rightarrow> operation \<Rightarrow> 'e CompressedVectorWriterImpl
   \<Rightarrow> (unit, 'e) result option" where
  "step fuel E X opn w =
     (case opn of
        Write n \<Rightarrow> writeRecords fuel E X n w
      | WriteBuffers newBufs n \<Rightarrow> writeBuffers fuel E X newBufs n w
      | Close \<Rightarrow> close fuel E X w)"

text \<open>
  A trace of operations that all return: \<open>Some w'\<close> is the writer after the last one,
  \<open>None\<close> a trace in which an operation threw or did not end within the fuel.
\<close>

fun run ::
  "nat \<Rightarrow> 'e Encoder \<Rightarrow> 'e Collaborators \<Rightarrow> operation list \<Rightarrow> 'e CompressedVectorWriterImpl
   \<Rightarrow> 'e CompressedVectorWriterImpl option" where
  "run fuel E X [] w = Some w"
| "run fuel E X (opn # ops) w =
     (case step fuel E X opn w of
        Some (Inr (u, w1)) \<Rightarrow> run fuel E X ops w1
      | _ \<Rightarrow> None)"

text \<open>The requested record counts of the write operations of a trace.\<close>

fun requested :: "operation \<Rightarrow> nat" where
  "requested (Write n) = n"
| "requested (WriteBuffers newBufs n) = n"
| "requested Close = 0"

subsection \<open>What a writer has written\<close>

text \<open>
  The writes that the file received since the constructor of the writer ran on the file
  \<open>file0\<close>, and the physical offset of the first of a list of writes (0 if there is none).
\<close>

definition emitted :: "ImageFile \<Rightarrow> 'e CompressedVectorWriterImpl \<Rightarrow> fileWrite list" where
  "emitted file0 w = drop (length (fileWrites file0)) (fileWrites (imf w))"

definition isDataWrite :: "fileWrite \<Rightarrow> bool" where
  "isDataWrite d = (case content d of DataPacketBytes pkt \<Rightarrow> True | _ \<Rightarrow> False)"

definition isIndexWrite :: "fileWrite \<Rightarrow> bool" where
  "isIndexWrite d = (case content d of IndexPacketBytes pkt \<Rightarrow> True | _ \<Rightarrow> False)"

definition firstPhysicalOffset :: "'e Collaborators \<Rightarrow> fileWrite list \<Rightarrow> nat" where
  "firstPhysicalOffset X ds = (case ds of [] \<Rightarrow> 0 | d # ds' \<Rightarrow> logicalToPhysical X (atLogical d))"

text \<open>
  The state of the section while the writer is open: the header slot is reserved at the
  frontier that the constructor found, no index packet is written, and the writes since the
  constructor are the data packets, counted by \<^verbatim>\<open>dataPacketsCount_\<close>, with the physical
  offset of the first one in \<^verbatim>\<open>dataPhysicalOffset_\<close>.
\<close>

definition sectionOpen ::
  "'e Collaborators \<Rightarrow> ImageFile \<Rightarrow> 'e CompressedVectorWriterImpl \<Rightarrow> bool" where
  "sectionOpen X file0 w \<longleftrightarrow>
     sectionHeaderLogicalStart w = unusedLogicalStart file0 \<and>
     unusedLogicalStart file0 + sizeof_CompressedVectorSectionHeader \<le> unusedLogicalStart (imf w) \<and>
     indexPacketsCount w = 0 \<and>
     fileWrites (imf w) = fileWrites file0 @ emitted file0 w \<and>
     list_all isDataWrite (emitted file0 w) \<and>
     dataPacketsCount w = length (emitted file0 w) \<and>
     dataPhysicalOffset w = firstPhysicalOffset X (emitted file0 w)"

text \<open>
  The state of the section after \<^verbatim>\<open>close\<close>: the data packets, one index packet behind
  them, and the header written last, into the reserved slot.
\<close>

definition sectionClosed ::
  "'e Collaborators \<Rightarrow> ImageFile \<Rightarrow> 'e CompressedVectorWriterImpl \<Rightarrow> bool" where
  "sectionClosed X file0 w \<longleftrightarrow>
     indexPacketsCount w = 1 \<and>
     (\<exists>ds ip hw.
        emitted file0 w = ds @ [ip, hw] \<and>
        list_all isDataWrite ds \<and>
        dataPacketsCount w = length ds \<and>
        isIndexWrite ip \<and>
        atLogical ip + byteCount ip = unusedLogicalStart (imf w) \<and>
        atLogical hw = unusedLogicalStart file0 \<and>
        byteCount hw = sizeof_CompressedVectorSectionHeader \<and>
        content hw = SectionHeaderBytes
          \<lparr>headerSectionLogicalLength = atLogical ip + byteCount ip - unusedLogicalStart file0,
           headerDataPhysicalOffset = firstPhysicalOffset X ds,
           headerIndexPhysicalOffset = logicalToPhysical X (atLogical ip)\<rparr>)"

text \<open>The states of a writer between its constructor and its destructor.\<close>

definition reachable :: "'e Collaborators \<Rightarrow> ImageFile \<Rightarrow> 'e CompressedVectorWriterImpl \<Rightarrow> bool" where
  "reachable X f0 w \<longleftrightarrow>
     (isOpen w \<and> sectionOpen X f0 w) \<or> (\<not> isOpen w \<and> sectionClosed X f0 w)"


subsection \<open>A concrete encoder and file\<close>

text \<open>
  An encoder that emits one zero byte for each record, with the bytes of the last word held
  back in a register until it is flushed; collaborators that accept buffers with distinct
  paths and one capacity and that accept every packet, with the translation of logical to
  physical offsets of a file with 1020 bytes of content in each page of 1024 bytes; a file
  whose first 1000 logical bytes are in use. The examples below run the writer on them.
\<close>

record byteEncoder =
  beNumber :: nat
  beIndex :: nat
  beQueue :: "byte list"
  beRegister :: "byte list"

definition byteEncoderOps :: "byteEncoder Encoder" where
  "byteEncoderOps =
     \<lparr>bytestreamNumber = beNumber,
      currentRecordIndex = beIndex,
      processRecords = (\<lambda>e k. e\<lparr>beIndex := beIndex e + k,
                                    beQueue := beQueue e @ beRegister e,
                                    beRegister := replicate k 0\<rparr>),
      outputAvailable = (\<lambda>e. length (beQueue e)),
      outputRead = (\<lambda>e n. if length (beQueue e) < n then Inl ErrorInternal
                            else Inr (take n (beQueue e), e\<lparr>beQueue := drop n (beQueue e)\<rparr>)),
      registerFlushToOutput = (\<lambda>e. e\<lparr>beQueue := beQueue e @ beRegister e, beRegister := []\<rparr>)\<rparr>"

definition exampleCollaborators :: "byteEncoder Collaborators" where
  "exampleCollaborators =
     \<lparr>VALIDATE_BASIC = True,
      VALIDATION_DEEP = True,
      logicalToPhysical = (\<lambda>l. l + 4 * (l div 1020)),
      checkCompatible = (\<lambda>a b. None),
      checkBuffers = (\<lambda>bs. if distinct (map pathName bs) \<and> sameCapacity bs then None
                            else Some ErrorBuffersNotCompatible),
      encoderFactory = (\<lambda>i b. Inr \<lparr>beNumber = i, beIndex = 0, beQueue = [], beRegister = []\<rparr>),
      dataPacketVerify = (\<lambda>pkt n. None),
      sectionHeaderVerify = (\<lambda>h. None)\<rparr>"

definition exampleFile :: ImageFile where
  "exampleFile = \<lparr>unusedLogicalStart = 1000, writerCount = 0, fileWrites = []\<rparr>"

definition exampleNode :: CompressedVectorNode where
  "exampleNode = \<lparr>nodeRecordCount = 0, binarySectionLogicalStart = 0\<rparr>"

definition exampleBuffer :: "string \<Rightarrow> nat \<Rightarrow> SourceDestBuffer" where
  "exampleBuffer name n = \<lparr>pathName = name, capacity = n, nextIndex = 0\<rparr>"

definition constructedWriter :: "byteEncoder CompressedVectorWriterImpl" where
  "constructedWriter =
     \<lparr>isOpen = True, sbufs = [exampleBuffer ''x'' 10],
      bytestreams = [\<lparr>beNumber = 0, beIndex = 0, beQueue = [], beRegister = []\<rparr>],
      sectionHeaderLogicalStart = 1000, sectionLogicalLength = 0, dataPhysicalOffset = 0,
      topIndexPhysicalOffset = 0, recordCount = 0, dataPacketsCount = 0, indexPacketsCount = 0,
      imf = \<lparr>unusedLogicalStart = 1032, writerCount = 1, fileWrites = []\<rparr>,
      cVector = exampleNode\<rparr>"

definition closedWriter :: "byteEncoder CompressedVectorWriterImpl" where
  "closedWriter =
     \<lparr>isOpen = False, sbufs = [exampleBuffer ''x'' 10], bytestreams = [],
      sectionHeaderLogicalStart = 1000, sectionLogicalLength = 64, dataPhysicalOffset = 0,
      topIndexPhysicalOffset = 1036, recordCount = 0, dataPacketsCount = 0, indexPacketsCount = 1,
      imf = \<lparr>unusedLogicalStart = 1064, writerCount = 0,
             fileWrites =
               [\<lparr>atLogical = 1032, byteCount = 32,
                  content = IndexPacketBytes
                    \<lparr>indexLogicalLengthMinus1 = 31, entryCount = 1, chunkPhysicalOffset = 0\<rparr>\<rparr>,
                \<lparr>atLogical = 1000, byteCount = 32,
                  content = SectionHeaderBytes
                    \<lparr>headerSectionLogicalLength = 64, headerDataPhysicalOffset = 0,
                     headerIndexPhysicalOffset = 1036\<rparr>\<rparr>]\<rparr>,
      cVector = \<lparr>nodeRecordCount = 0, binarySectionLogicalStart = 1000\<rparr>\<rparr>"

text \<open>
  The writers that the example trace passes through: after \<^verbatim>\<open>write(3)\<close>, after the
  \<^verbatim>\<open>close\<close> that follows, and after \<^verbatim>\<open>write(0)\<close> and \<^verbatim>\<open>close\<close>.
\<close>

definition writtenWriter :: "byteEncoder CompressedVectorWriterImpl" where
  "writtenWriter =
     constructedWriter
       \<lparr>bytestreams := [\<lparr>beNumber = 0, beIndex = 3, beQueue = [], beRegister = [0, 0, 0]\<rparr>],
        recordCount := 3\<rparr>"

definition sectionWriter :: "byteEncoder CompressedVectorWriterImpl" where
  "sectionWriter =
     \<lparr>isOpen = False, sbufs = [exampleBuffer ''x'' 10], bytestreams = [],
      sectionHeaderLogicalStart = 1000, sectionLogicalLength = 76, dataPhysicalOffset = 1036,
      topIndexPhysicalOffset = 1048, recordCount = 3, dataPacketsCount = 1, indexPacketsCount = 1,
      imf = \<lparr>unusedLogicalStart = 1076, writerCount = 0,
             fileWrites =
               [\<lparr>atLogical = 1032, byteCount = 12,
                  content = DataPacketBytes
                    \<lparr>header = \<lparr>packetType = 1, packetFlags = 0, packetLogicalLengthMinus1 = 11,
                               bytestreamCount = 1\<rparr>,
                     bytestreamBufferLength = [3], payload = [0, 0, 0, 0]\<rparr>\<rparr>,
                \<lparr>atLogical = 1044, byteCount = 32,
                  content = IndexPacketBytes
                    \<lparr>indexLogicalLengthMinus1 = 31, entryCount = 1, chunkPhysicalOffset = 1036\<rparr>\<rparr>,
                \<lparr>atLogical = 1000, byteCount = 32,
                  content = SectionHeaderBytes
                    \<lparr>headerSectionLogicalLength = 76, headerDataPhysicalOffset = 1036,
                     headerIndexPhysicalOffset = 1048\<rparr>\<rparr>]\<rparr>,
      cVector = \<lparr>nodeRecordCount = 3, binarySectionLogicalStart = 1000\<rparr>\<rparr>"

definition zeroRecordsWriter :: "byteEncoder CompressedVectorWriterImpl" where
  "zeroRecordsWriter =
     \<lparr>isOpen = False, sbufs = [exampleBuffer ''x'' 10], bytestreams = [],
      sectionHeaderLogicalStart = 1000, sectionLogicalLength = 72, dataPhysicalOffset = 1036,
      topIndexPhysicalOffset = 1044, recordCount = 0, dataPacketsCount = 1, indexPacketsCount = 1,
      imf = \<lparr>unusedLogicalStart = 1072, writerCount = 0,
             fileWrites =
               [\<lparr>atLogical = 1032, byteCount = 8,
                  content = DataPacketBytes
                    \<lparr>header = \<lparr>packetType = 1, packetFlags = 0, packetLogicalLengthMinus1 = 7,
                               bytestreamCount = 0\<rparr>,
                     bytestreamBufferLength = [], payload = [0, 0]\<rparr>\<rparr>,
                \<lparr>atLogical = 1040, byteCount = 32,
                  content = IndexPacketBytes
                    \<lparr>indexLogicalLengthMinus1 = 31, entryCount = 1, chunkPhysicalOffset = 1036\<rparr>\<rparr>,
                \<lparr>atLogical = 1000, byteCount = 32,
                  content = SectionHeaderBytes
                    \<lparr>headerSectionLogicalLength = 72, headerDataPhysicalOffset = 1036,
                     headerIndexPhysicalOffset = 1044\<rparr>\<rparr>]\<rparr>,
      cVector = \<lparr>nodeRecordCount = 0, binarySectionLogicalStart = 1000\<rparr>\<rparr>"

text \<open>
  A writer whose one encoder holds 70000 bytes of output, more than the payload of a packet.
\<close>

definition fullWriter :: "byteEncoder CompressedVectorWriterImpl" where
  "fullWriter =
     constructedWriter
       \<lparr>bytestreams :=
          [\<lparr>beNumber = 0, beIndex = 70000, beQueue = replicate 70000 0, beRegister = []\<rparr>],
        recordCount := 70000\<rparr>"

text \<open>
  A writer with 21844 bytestreams: the buffers it is constructed for, the writer that the
  constructor makes, and the writer after \<^verbatim>\<open>write(1)\<close>, when each encoder holds the byte of
  the one record in its register. \<open>oneByteEncoder\<close> is such an encoder after a flush.
\<close>

definition manyStreams :: nat where
  "manyStreams = 21844"

definition manyBuffers :: "SourceDestBuffer list" where
  "manyBuffers = map (\<lambda>i. exampleBuffer (replicate (Suc i) CHR ''x'') 1) [0..<manyStreams]"

definition freshEncoder :: "nat \<Rightarrow> byteEncoder" where
  "freshEncoder i = \<lparr>beNumber = i, beIndex = 0, beQueue = [], beRegister = []\<rparr>"

definition pendingByteEncoder :: "nat \<Rightarrow> byteEncoder" where
  "pendingByteEncoder i = \<lparr>beNumber = i, beIndex = 1, beQueue = [], beRegister = [0]\<rparr>"

definition oneByteEncoder :: "nat \<Rightarrow> byteEncoder" where
  "oneByteEncoder i = \<lparr>beNumber = i, beIndex = 1, beQueue = [0], beRegister = []\<rparr>"

definition manyStreamsConstructed :: "byteEncoder CompressedVectorWriterImpl" where
  "manyStreamsConstructed =
     \<lparr>isOpen = True, sbufs = manyBuffers,
      bytestreams = map freshEncoder [0..<manyStreams],
      sectionHeaderLogicalStart = 1000, sectionLogicalLength = 0, dataPhysicalOffset = 0,
      topIndexPhysicalOffset = 0, recordCount = 0, dataPacketsCount = 0, indexPacketsCount = 0,
      imf = \<lparr>unusedLogicalStart = 1032, writerCount = 1, fileWrites = []\<rparr>,
      cVector = exampleNode\<rparr>"

definition manyStreamsWriter :: "byteEncoder CompressedVectorWriterImpl" where
  "manyStreamsWriter =
     manyStreamsConstructed
       \<lparr>bytestreams := map pendingByteEncoder [0..<manyStreams], recordCount := 1\<rparr>"

section \<open>Properties\<close>

lemmas model_defs =
  construct_def exampleCollaborators_def byteEncoderOps_def exampleBuffer_def exampleFile_def
  exampleNode_def allocateSpace_def incrWriterCount_def decrWriterCount_def file_write_def
  sizeof_CompressedVectorSectionHeader_def sizeof_DataPacketHeader_def sizeof_uint16_def
  sizeof_IndexPacketHeader_def sizeof_IndexPacketEntry_def DATA_PACKET_MAX_def
  E57_TARGET_PACKET_SIZE_def step_def close_def closeSection_def packetWriteIndex_def flush_def
  totalOutputAvailable_def writeRecords_def checkWriterOpen_def packetWriteZeroRecords_def
  writeDataPacket_def dataPacketHeader_def header_reset_def DATA_PACKET_def size_t_sub_def
  rewind_def totalRecordCount_def currentPacketSize_def processChannel_def packetWrite_def
  packetFinish_def packetCounts_def bsbLength_def cPacketMaxPayloadBytes_def writeBuffers_def
  setBuffers_def sameCapacity_def

subsection \<open>The examples are what the constructor and \<^verbatim>\<open>close\<close> produce\<close>

lemma construct_example:
  "construct byteEncoderOps exampleCollaborators exampleNode exampleFile [exampleBuffer ''x'' 10]
     = Inr constructedWriter"
  by (simp add: constructedWriter_def model_defs)

lemma close_example:
  "close 0 byteEncoderOps exampleCollaborators constructedWriter = Some (Inr ((), closedWriter))"
  by (simp add: constructedWriter_def closedWriter_def model_defs)

lemma padPacket_11: "padPacket 11 11 = Inr 12"
  by (simp add: padPacket.simps DATA_PACKET_MAX_def)

lemma padZeroRecords_6: "padZeroRecords 6 = 8"
  by (simp add: padZeroRecords.simps)

lemma replicate_3: "replicate 3 x = [x, x, x]"
  by (simp add: numeral_3_eq_3)

lemma write_example:
  "writeRecords (Suc (Suc 0)) byteEncoderOps exampleCollaborators 3 constructedWriter
     = Some (Inr ((), writtenWriter))"
  by (simp add: constructedWriter_def writtenWriter_def model_defs replicate_3)

lemma close_written_example:
  "close (Suc 0) byteEncoderOps exampleCollaborators writtenWriter
     = Some (Inr ((), sectionWriter))"
  by (simp add: constructedWriter_def writtenWriter_def sectionWriter_def model_defs padPacket_11)

lemma write_zero_example:
  "run 0 byteEncoderOps exampleCollaborators [Write 0, Close] constructedWriter
     = Some zeroRecordsWriter"
  by (simp add: constructedWriter_def zeroRecordsWriter_def model_defs padZeroRecords_6
        numeral_2_eq_2)

subsection \<open>What the operations keep\<close>

lemma writeDataPacket_eq:
  "writeDataPacket X w pkt len =
     (logicalToPhysical X (unusedLogicalStart (imf w)),
      w\<lparr>imf := (imf w)\<lparr>unusedLogicalStart := unusedLogicalStart (imf w) + len,
                      fileWrites := fileWrites (imf w) @
                        [\<lparr>atLogical = unusedLogicalStart (imf w), byteCount = len,
                          content = DataPacketBytes pkt\<rparr>]\<rparr>,
        dataPhysicalOffset := (if dataPacketsCount w = 0
                               then logicalToPhysical X (unusedLogicalStart (imf w))
                               else dataPhysicalOffset w),
        dataPacketsCount := dataPacketsCount w + 1\<rparr>)"
  by (simp add: writeDataPacket_def allocateSpace_def file_write_def Let_def)

lemma padPacket_Inr:
  "padPacket p n = Inr len \<Longrightarrow>
     len mod 4 = 0 \<and> n \<le> len \<and> (len = n \<or> p + (len - n) \<le> DATA_PACKET_MAX - 1)"
proof (induction p n rule: padPacket.induct)
  case (1 p n)
  show ?case
  proof (cases "n mod 4 \<noteq> 0")
    case False
    with "1.prems" show ?thesis by (simp add: padPacket.simps)
  next
    case True
    with "1.prems" have small: "\<not> DATA_PACKET_MAX - 1 \<le> p"
      and rec: "padPacket (p + 1) (n + 1) = Inr len"
      by (auto simp add: padPacket.simps [of p n] split: if_splits)
    from "1.IH" [OF True small rec] small show ?thesis by auto
  qed
qed

lemma padPacket_Inl: "padPacket p n = Inl e \<Longrightarrow> e = ErrorInternal"
proof (induction p n rule: padPacket.induct)
  case (1 p n)
  then show ?case
    by (auto simp add: padPacket.simps [of p n] split: if_splits)
qed

lemma outputReadAll_None:
  "outputReadAll E vb es count p = (None, bytes, es', p') \<Longrightarrow>
     length es' = length es \<and> p \<le> p' \<and> (es \<noteq> [] \<longrightarrow> p' \<le> DATA_PACKET_MAX)"
proof (induction E vb es count p arbitrary: bytes es' p' rule: outputReadAll.induct)
  case (1 E vb count p)
  then show ?case by simp
next
  case (2 E vb e es p)
  then show ?case by simp
next
  case (3 E vb e es n count p)
  from "3.prems" have ok: "\<not> DATA_PACKET_MAX < p + n"
    by (auto split: if_splits)
  from "3.prems" ok obtain bs e' where rd: "outputRead E e n = Inr (bs, e')"
    by (auto split: sum.splits)
  from "3.prems" ok rd obtain rest es'' where
    rec: "outputReadAll E vb es count (p + n) = (None, rest, es'', p')" and es': "es' = e' # es''"
    by (auto split: prod.splits)
  from "3.IH" [OF ok rd refl rec] have "length es'' = length es" "p + n \<le> p'"
    "es \<noteq> [] \<longrightarrow> p' \<le> DATA_PACKET_MAX" by auto
  moreover have "es = [] \<Longrightarrow> p' = p + n" using rec by simp
  ultimately show ?case using es' ok by auto
qed


lemma packetFinish_Inr:
  assumes "packetFinish X w count bsb bytes p = Inr (off, w')" and "p \<le> DATA_PACKET_MAX"
  shows "\<exists>pkt len. len mod 4 = 0 \<and> len \<le> DATA_PACKET_MAX \<and>
           writeDataPacket X w pkt len = (off, w')"
proof -
  from assms(1) obtain len where pad: "padPacket p p = Inr len"
    by (auto simp add: packetFinish_def Let_def split: if_splits sum.splits)
  from padPacket_Inr [OF pad] assms(2) have len: "len mod 4 = 0" "len \<le> DATA_PACKET_MAX"
    by auto
  from assms(1) pad obtain pkt where w: "writeDataPacket X w pkt len = (off, w')"
    by (auto simp add: packetFinish_def Let_def split: if_splits option.splits)
  show ?thesis
    by (rule exI [where x = pkt], rule exI [where x = len]) (simp only: len w)
qed

lemma packetWrite_Inr:
  assumes "packetWrite E X w = Inr (off, w')"
  shows "(totalOutputAvailable E w = 0 \<and> off = 0 \<and> w' = w) \<or>
         (0 < totalOutputAvailable E w \<and>
          (\<exists>es pkt len. length es = length (bytestreams w) \<and> len mod 4 = 0 \<and>
             len \<le> DATA_PACKET_MAX \<and>
             writeDataPacket X (w\<lparr>bytestreams := es\<rparr>) pkt len = (off, w')))"
proof (cases "totalOutputAvailable E w = 0")
  case True
  with assms show ?thesis by (simp add: packetWrite_def)
next
  case False
  then have ne: "bytestreams w \<noteq> []" by (auto simp add: totalOutputAvailable_def)
  from assms False obtain count bsb r bytes es p where
    rd: "outputReadAll E (VALIDATE_BASIC X) (bytestreams w) count
           (sizeof_DataPacketHeader + length (bytestreams w) * sizeof_uint16) = (r, bytes, es, p)"
    and r: "r = None"
    and fin: "packetFinish X (w\<lparr>bytestreams := es\<rparr>) count bsb bytes p = Inr (off, w')"
    by (auto simp add: packetWrite_def Let_def split: if_splits sum.splits prod.splits option.splits)
  from outputReadAll_None [OF rd [unfolded r]] ne
  have len: "length es = length (bytestreams w)" and p: "p \<le> DATA_PACKET_MAX" by auto
  from packetFinish_Inr [OF fin p] obtain pkt n where
    n: "n mod 4 = 0" "n \<le> DATA_PACKET_MAX"
    and w: "writeDataPacket X (w\<lparr>bytestreams := es\<rparr>) pkt n = (off, w')"
    by (elim exE conjE)
  have "\<exists>es pkt len. length es = length (bytestreams w) \<and> len mod 4 = 0 \<and>
             len \<le> DATA_PACKET_MAX \<and>
             writeDataPacket X (w\<lparr>bytestreams := es\<rparr>) pkt len = (off, w')"
    by (rule exI [where x = es], rule exI [where x = pkt], rule exI [where x = n])
       (simp only: len n w)
  with False show ?thesis by simp
qed


lemma sectionOpen_frame [simp]:
  "sectionOpen X f0 (w\<lparr>bytestreams := es\<rparr>) = sectionOpen X f0 w"
  "sectionOpen X f0 (w\<lparr>sbufs := bs\<rparr>) = sectionOpen X f0 w"
  "sectionOpen X f0 (w\<lparr>recordCount := n\<rparr>) = sectionOpen X f0 w"
  "sectionOpen X f0 (w\<lparr>isOpen := b\<rparr>) = sectionOpen X f0 w"
  by (simp_all add: sectionOpen_def emitted_def)

lemma firstPhysicalOffset_snoc:
  "firstPhysicalOffset X (ds @ [d]) =
     (if ds = [] then logicalToPhysical X (atLogical d) else firstPhysicalOffset X ds)"
  by (cases ds) (simp_all add: firstPhysicalOffset_def)

lemma writeDataPacket_step:
  assumes "writeDataPacket X w pkt len = (off, w')" and "sectionOpen X f0 w"
  shows "sectionOpen X f0 w'"
    and "isOpen w' = isOpen w"
    and "recordCount w' = recordCount w"
    and "dataPacketsCount w' = dataPacketsCount w + 1"
    and "bytestreams w' = bytestreams w"
    and "emitted f0 w' = emitted f0 w @
           [\<lparr>atLogical = unusedLogicalStart (imf w), byteCount = len,
             content = DataPacketBytes pkt\<rparr>]"
proof -
  let ?d = "\<lparr>atLogical = unusedLogicalStart (imf w), byteCount = len,
             content = DataPacketBytes pkt\<rparr>"
  from assms(1) have w': "w' = w\<lparr>imf := (imf w)\<lparr>unusedLogicalStart := unusedLogicalStart (imf w) + len,
                      fileWrites := fileWrites (imf w) @ [?d]\<rparr>,
        dataPhysicalOffset := (if dataPacketsCount w = 0
                               then logicalToPhysical X (unusedLogicalStart (imf w))
                               else dataPhysicalOffset w),
        dataPacketsCount := dataPacketsCount w + 1\<rparr>"
    by (simp add: writeDataPacket_eq)
  from assms(2) have log: "fileWrites (imf w) = fileWrites f0 @ emitted f0 w"
    by (simp add: sectionOpen_def)
  have "fileWrites (imf w') = fileWrites f0 @ (emitted f0 w @ [?d])"
    using log by (simp add: w')
  then show em: "emitted f0 w' = emitted f0 w @ [?d]"
    by (simp add: emitted_def)
  have cnt: "(dataPacketsCount w = 0) = (emitted f0 w = [])"
    using assms(2) by (simp add: sectionOpen_def)
  show "sectionOpen X f0 w'"
    using assms(2) log cnt unfolding sectionOpen_def em firstPhysicalOffset_snoc
    by (simp add: w' isDataWrite_def)
  show "isOpen w' = isOpen w" "recordCount w' = recordCount w"
    "dataPacketsCount w' = dataPacketsCount w + 1" "bytestreams w' = bytestreams w"
    by (simp_all add: w')
qed

lemma packetWrite_step:
  assumes "packetWrite E X w = Inr (off, w')" and "sectionOpen X f0 w"
  shows "sectionOpen X f0 w' \<and> isOpen w' = isOpen w \<and> recordCount w' = recordCount w \<and>
         dataPacketsCount w \<le> dataPacketsCount w'"
proof -
  from packetWrite_Inr [OF assms(1)] show ?thesis
  proof
    assume "totalOutputAvailable E w = 0 \<and> off = 0 \<and> w' = w"
    with assms(2) show ?thesis by simp
  next
    assume "0 < totalOutputAvailable E w \<and>
          (\<exists>es pkt len. length es = length (bytestreams w) \<and> len mod 4 = 0 \<and>
             len \<le> DATA_PACKET_MAX \<and>
             writeDataPacket X (w\<lparr>bytestreams := es\<rparr>) pkt len = (off, w'))"
    then obtain es pkt len where
      wd: "writeDataPacket X (w\<lparr>bytestreams := es\<rparr>) pkt len = (off, w')"
      by (elim exE conjE)
    have so: "sectionOpen X f0 (w\<lparr>bytestreams := es\<rparr>)" using assms(2) by simp
    from writeDataPacket_step(1-4) [OF wd so] show ?thesis by simp
  qed
qed

lemma writeLoop_step:
  "writeLoop fuel E X endRecordIndex w = Some (Inr (u, w')) \<Longrightarrow> sectionOpen X f0 w \<Longrightarrow>
   sectionOpen X f0 w' \<and> isOpen w' = isOpen w \<and> recordCount w' = recordCount w \<and>
   dataPacketsCount w \<le> dataPacketsCount w'"
proof (induction fuel arbitrary: w)
  case 0
  then show ?case by (simp split: if_splits)
next
  case (Suc fuel)
  show ?case
  proof (cases "totalRecordCount E endRecordIndex w = 0")
    case True
    with Suc.prems show ?thesis by simp
  next
    case False
    show ?thesis
    proof (cases "E57_TARGET_PACKET_SIZE \<le> currentPacketSize E w")
      case True
      with False Suc.prems(1) obtain off w1 where
        pw: "packetWrite E X w = Inr (off, w1)"
        and rec: "writeLoop fuel E X endRecordIndex w1 = Some (Inr (u, w'))"
        by (auto split: sum.splits)
      from packetWrite_step [OF pw Suc.prems(2)] Suc.IH [OF rec] show ?thesis by auto
    next
      case nt: False
      let ?w1 = "w\<lparr>bytestreams := map (processChannel E endRecordIndex) (bytestreams w)\<rparr>"
      from False nt Suc.prems(1) have
        rec: "writeLoop fuel E X endRecordIndex ?w1 = Some (Inr (u, w'))" by simp
      have "sectionOpen X f0 ?w1" using Suc.prems(2) by simp
      from Suc.IH [OF rec this] show ?thesis by simp
    qed
  qed
qed

lemma drainLoop_step:
  "drainLoop fuel E X w = Some (Inr (u, w')) \<Longrightarrow> sectionOpen X f0 w \<Longrightarrow>
   sectionOpen X f0 w' \<and> isOpen w' = isOpen w \<and> recordCount w' = recordCount w \<and>
   dataPacketsCount w \<le> dataPacketsCount w'"
proof (induction fuel arbitrary: w)
  case 0
  then show ?case by (simp split: if_splits)
next
  case (Suc fuel)
  show ?case
  proof (cases "0 < totalOutputAvailable E w")
    case False
    with Suc.prems show ?thesis by simp
  next
    case True
    with Suc.prems(1) obtain off w1 where
      pw: "packetWrite E X w = Inr (off, w1)"
      and rec: "drainLoop fuel E X (flush E w1) = Some (Inr (u, w'))"
      by (auto split: sum.splits)
    from packetWrite_step [OF pw Suc.prems(2)]
    have s1: "sectionOpen X f0 w1" "isOpen w1 = isOpen w" "recordCount w1 = recordCount w"
      "dataPacketsCount w \<le> dataPacketsCount w1" by simp_all
    have "sectionOpen X f0 (flush E w1)" using s1(1) by (simp add: flush_def)
    from Suc.IH [OF rec this] s1 show ?thesis by (simp add: flush_def)
  qed
qed

lemma padZeroRecords_header: "padZeroRecords sizeof_DataPacketHeader = 8"
  by (simp add: sizeof_DataPacketHeader_def padZeroRecords.simps)

lemma packetWriteZeroRecords_step:
  assumes "packetWriteZeroRecords X w = Inr (u, w')" and "sectionOpen X f0 w"
  shows "sectionOpen X f0 w' \<and> isOpen w' = isOpen w \<and> recordCount w' = recordCount w \<and>
         dataPacketsCount w' = dataPacketsCount w + 1 \<and>
         (\<exists>pkt. emitted f0 w' = emitted f0 w @
            [\<lparr>atLogical = unusedLogicalStart (imf w), byteCount = 8,
              content = DataPacketBytes pkt\<rparr>])"
proof -
  from assms(1) obtain pkt where
    w': "w' = snd (writeDataPacket X w pkt 8)"
    by (auto simp add: packetWriteZeroRecords_def padZeroRecords_header Let_def split: option.splits)
  then obtain off where wd: "writeDataPacket X w pkt 8 = (off, w')"
    by (cases "writeDataPacket X w pkt 8") simp
  from writeDataPacket_step [OF wd assms(2)] show ?thesis by simp
qed

lemma writeRecords_step:
  assumes "writeRecords fuel E X n w = Some (Inr (u, w'))" and "sectionOpen X f0 w"
  shows "isOpen w \<and> isOpen w' \<and> sectionOpen X f0 w' \<and> recordCount w' = recordCount w + n \<and>
         dataPacketsCount w \<le> dataPacketsCount w' \<and>
         (n = 0 \<longrightarrow> dataPacketsCount w' = dataPacketsCount w + 1)"
proof -
  from assms(1) have op: "isOpen w"
    by (auto simp add: writeRecords_def checkWriterOpen_def split: if_splits)
  show ?thesis
  proof (cases "n = 0")
    case True
    with assms(1) op have "packetWriteZeroRecords X w = Inr (u, w')"
      by (simp add: writeRecords_def checkWriterOpen_def)
    from packetWriteZeroRecords_step [OF this assms(2)] op True show ?thesis by simp
  next
    case False
    let ?w0 = "w\<lparr>sbufs := map rewind (sbufs w)\<rparr>"
    from assms(1) op False obtain w1 where
      lp: "writeLoop fuel E X (recordCount w + n) ?w0 = Some (Inr ((), w1))"
      and w': "w' = w1\<lparr>recordCount := recordCount w1 + n\<rparr>"
      by (auto simp add: writeRecords_def checkWriterOpen_def
               split: list.splits if_splits option.splits sum.splits)
    have "sectionOpen X f0 ?w0" using assms(2) by simp
    from writeLoop_step [OF lp this] op False show ?thesis by (simp add: w')
  qed
qed

lemma setBuffers_Inr:
  "setBuffers X newBufs w = Inr (u, w') \<Longrightarrow> w' = w\<lparr>sbufs := newBufs\<rparr>"
  by (auto simp add: setBuffers_def split: option.splits if_splits)

lemma writeBuffers_step:
  assumes "writeBuffers fuel E X newBufs n w = Some (Inr (u, w'))" and "sectionOpen X f0 w"
  shows "isOpen w \<and> isOpen w' \<and> sectionOpen X f0 w' \<and> recordCount w' = recordCount w + n \<and>
         dataPacketsCount w \<le> dataPacketsCount w' \<and>
         (n = 0 \<longrightarrow> dataPacketsCount w' = dataPacketsCount w + 1)"
proof -
  from assms(1) obtain u1 w1 where
    sb: "setBuffers X newBufs w = Inr (u1, w1)"
    and wr: "writeRecords fuel E X n w1 = Some (Inr (u, w'))"
    by (auto simp add: writeBuffers_def split: sum.splits)
  have w1: "w1 = w\<lparr>sbufs := newBufs\<rparr>" by (rule setBuffers_Inr [OF sb])
  have "sectionOpen X f0 w1" using assms(2) by (simp add: w1)
  from writeRecords_step [OF wr this] show ?thesis by (simp add: w1)
qed

lemma closeSection_step:
  assumes "closeSection X w = Inr (u, w')" and "sectionOpen X f0 w"
  shows "sectionClosed X f0 w' \<and> isOpen w' = isOpen w \<and> recordCount w' = recordCount w \<and>
         dataPacketsCount w' = dataPacketsCount w \<and>
         sectionHeaderLogicalStart w' = unusedLogicalStart f0"
proof -
  let ?ip = "\<lparr>atLogical = unusedLogicalStart (imf w),
              byteCount = sizeof_IndexPacketHeader + sizeof_IndexPacketEntry,
              content = IndexPacketBytes
                \<lparr>indexLogicalLengthMinus1 = sizeof_IndexPacketHeader + sizeof_IndexPacketEntry - 1,
                 entryCount = 1, chunkPhysicalOffset = dataPhysicalOffset w\<rparr>\<rparr>"
  let ?end = "unusedLogicalStart (imf w) + (sizeof_IndexPacketHeader + sizeof_IndexPacketEntry)"
  let ?hdr = "\<lparr>headerSectionLogicalLength = ?end - unusedLogicalStart f0,
               headerDataPhysicalOffset = firstPhysicalOffset X (emitted f0 w),
               headerIndexPhysicalOffset = logicalToPhysical X (unusedLogicalStart (imf w))\<rparr>"
  let ?hw = "\<lparr>atLogical = unusedLogicalStart f0, byteCount = sizeof_CompressedVectorSectionHeader,
              content = SectionHeaderBytes ?hdr\<rparr>"
  from assms(2) have so:
    "sectionHeaderLogicalStart w = unusedLogicalStart f0"
    "unusedLogicalStart f0 + sizeof_CompressedVectorSectionHeader \<le> unusedLogicalStart (imf w)"
    "indexPacketsCount w = 0"
    "fileWrites (imf w) = fileWrites f0 @ emitted f0 w"
    "list_all isDataWrite (emitted f0 w)"
    "dataPacketsCount w = length (emitted f0 w)"
    "dataPhysicalOffset w = firstPhysicalOffset X (emitted f0 w)"
    by (simp_all add: sectionOpen_def)
  have sub: "size_t_sub ?end (unusedLogicalStart f0) = ?end - unusedLogicalStart f0"
    using so(2) by (simp add: size_t_sub_def)
  from assms(1) have w': "w' = w
      \<lparr>topIndexPhysicalOffset := logicalToPhysical X (unusedLogicalStart (imf w)),
       imf := (imf w)\<lparr>unusedLogicalStart := ?end,
                      fileWrites := fileWrites (imf w) @ [?ip, ?hw]\<rparr>,
       indexPacketsCount := 1,
       sectionLogicalLength := ?end - unusedLogicalStart f0,
       cVector := (cVector w)\<lparr>nodeRecordCount := recordCount w,
                                binarySectionLogicalStart := unusedLogicalStart f0\<rparr>,
       bytestreams := []\<rparr>"
    using so(1,3,7) sub
    by (auto simp add: closeSection_def packetWriteIndex_def allocateSpace_def file_write_def
          Let_def split: option.splits if_splits)
  have "fileWrites (imf w') = fileWrites f0 @ (emitted f0 w @ [?ip, ?hw])"
    using so(4) by (simp add: w')
  then have em: "emitted f0 w' = emitted f0 w @ [?ip, ?hw]" by (simp add: emitted_def)
  have "sectionClosed X f0 w'"
    unfolding sectionClosed_def
  proof (intro conjI exI)
    show "indexPacketsCount w' = 1" by (simp add: w')
    show "emitted f0 w' = emitted f0 w @ [?ip, ?hw]" by (rule em)
    show "list_all isDataWrite (emitted f0 w)" by (rule so(5))
    show "dataPacketsCount w' = length (emitted f0 w)" using so(6) by (simp add: w')
    show "isIndexWrite ?ip" by (simp add: isIndexWrite_def)
    show "atLogical ?ip + byteCount ?ip = unusedLogicalStart (imf w')" by (simp add: w')
    show "atLogical ?hw = unusedLogicalStart f0" by simp
    show "byteCount ?hw = sizeof_CompressedVectorSectionHeader" by simp
    show "content ?hw = SectionHeaderBytes
          \<lparr>headerSectionLogicalLength = atLogical ?ip + byteCount ?ip - unusedLogicalStart f0,
           headerDataPhysicalOffset = firstPhysicalOffset X (emitted f0 w),
           headerIndexPhysicalOffset = logicalToPhysical X (atLogical ?ip)\<rparr>" by simp
  qed
  then show ?thesis using so(1) by (simp add: w')
qed

lemma close_open_step:
  assumes "close fuel E X w = Some (Inr (u, w'))" and "isOpen w" and "sectionOpen X f0 w"
  shows "\<not> isOpen w' \<and> sectionClosed X f0 w' \<and> recordCount w' = recordCount w \<and>
         dataPacketsCount w \<le> dataPacketsCount w' \<and>
         sectionHeaderLogicalStart w' = unusedLogicalStart f0"
proof -
  let ?w0 = "flush E (w\<lparr>imf := decrWriterCount (imf w), isOpen := False\<rparr>)"
  from assms(1,2) obtain u1 w1 where
    dl: "drainLoop fuel E X ?w0 = Some (Inr (u1, w1))"
    and cs: "closeSection X w1 = Inr (u, w')"
    by (auto simp add: close_def Let_def split: option.splits sum.splits)
  have "sectionOpen X f0 ?w0"
    using assms(3) by (simp add: sectionOpen_def emitted_def flush_def decrWriterCount_def)
  from drainLoop_step [OF dl this]
  have s1: "sectionOpen X f0 w1" "\<not> isOpen w1" "recordCount w1 = recordCount w"
    "dataPacketsCount w \<le> dataPacketsCount w1"
    by (simp_all add: flush_def)
  from closeSection_step [OF cs s1(1)] s1 show ?thesis by simp
qed

lemma sectionClosed_writerCount [simp]:
  "sectionClosed X f0 (w\<lparr>imf := (imf w)\<lparr>writerCount := c\<rparr>\<rparr>) = sectionClosed X f0 w"
  by (simp add: sectionClosed_def emitted_def)

lemma close_closed_step:
  assumes "close fuel E X w = Some (Inr (u, w'))" and "\<not> isOpen w" and "sectionClosed X f0 w"
  shows "\<not> isOpen w' \<and> sectionClosed X f0 w' \<and> recordCount w' = recordCount w \<and>
         dataPacketsCount w' = dataPacketsCount w"
  using assms by (auto simp add: close_def decrWriterCount_def)

lemma construct_step:
  assumes "construct E X ni f0 bufs = Inr w0"
  shows "isOpen w0 \<and> sectionOpen X f0 w0 \<and> recordCount w0 = 0 \<and> dataPacketsCount w0 = 0"
  using assms
  by (auto simp add: construct_def Let_def allocateSpace_def incrWriterCount_def sectionOpen_def
        emitted_def firstPhysicalOffset_def
        split: if_splits option.splits sum.splits)

lemma step_reachable:
  assumes "step fuel E X opn w = Some (Inr (u, w'))" and "reachable X f0 w"
  shows "reachable X f0 w' \<and> recordCount w' = recordCount w + requested opn \<and>
         dataPacketsCount w \<le> dataPacketsCount w' \<and>
         (opn = Close \<longrightarrow> \<not> isOpen w') \<and>
         (isOpen w' \<longrightarrow> isOpen w) \<and>
         (opn \<noteq> Close \<and> requested opn = 0 \<longrightarrow> dataPacketsCount w < dataPacketsCount w')"
proof (cases opn)
  case (Write n)
  with assms(1) have wr: "writeRecords fuel E X n w = Some (Inr (u, w'))" by (simp add: step_def)
  then have "isOpen w" by (auto simp add: writeRecords_def checkWriterOpen_def split: if_splits)
  with assms(2) have "sectionOpen X f0 w" by (simp add: reachable_def)
  from writeRecords_step [OF wr this] Write show ?thesis by (auto simp add: reachable_def)
next
  case (WriteBuffers bs n)
  with assms(1) have wr: "writeBuffers fuel E X bs n w = Some (Inr (u, w'))"
    by (simp add: step_def)
  then have "isOpen w"
    by (auto simp add: writeBuffers_def writeRecords_def checkWriterOpen_def
          dest!: setBuffers_Inr split: if_splits sum.splits)
  with assms(2) have "sectionOpen X f0 w" by (simp add: reachable_def)
  from writeBuffers_step [OF wr this] WriteBuffers show ?thesis by (auto simp add: reachable_def)
next
  case Close
  with assms(1) have cl: "close fuel E X w = Some (Inr (u, w'))" by (simp add: step_def)
  show ?thesis
  proof (cases "isOpen w")
    case True
    with assms(2) have "sectionOpen X f0 w" by (simp add: reachable_def)
    from close_open_step [OF cl True this] Close show ?thesis by (simp add: reachable_def)
  next
    case False
    with assms(2) have "sectionClosed X f0 w" by (simp add: reachable_def)
    from close_closed_step [OF cl False this] Close show ?thesis by (simp add: reachable_def)
  qed
qed

lemma run_reachable:
  "run fuel E X ops w = Some w' \<Longrightarrow> reachable X f0 w \<Longrightarrow>
   reachable X f0 w' \<and> recordCount w' = recordCount w + sum_list (map requested ops) \<and>
   dataPacketsCount w \<le> dataPacketsCount w' \<and>
   (isOpen w' \<longrightarrow> isOpen w) \<and>
   (Close \<in> set ops \<longrightarrow> \<not> isOpen w') \<and>
   ((\<exists>opn \<in> set ops. opn \<noteq> Close \<and> requested opn = 0) \<longrightarrow> 0 < dataPacketsCount w')"
proof (induction ops arbitrary: w)
  case Nil
  then show ?case by simp
next
  case (Cons opn ops)
  from Cons.prems(1) obtain u w1 where
    st: "step fuel E X opn w = Some (Inr (u, w1))" and rn: "run fuel E X ops w1 = Some w'"
    by (auto split: option.splits sum.splits)
  from step_reachable [OF st Cons.prems(2)]
  have s: "reachable X f0 w1" "recordCount w1 = recordCount w + requested opn"
    "dataPacketsCount w \<le> dataPacketsCount w1" "opn = Close \<longrightarrow> \<not> isOpen w1"
    "isOpen w1 \<longrightarrow> isOpen w"
    "opn \<noteq> Close \<and> requested opn = 0 \<longrightarrow> dataPacketsCount w < dataPacketsCount w1"
    by simp_all
  from Cons.IH [OF rn s(1)]
  have r: "reachable X f0 w'" "recordCount w' = recordCount w1 + sum_list (map requested ops)"
    "dataPacketsCount w1 \<le> dataPacketsCount w'" "isOpen w' \<longrightarrow> isOpen w1"
    "Close \<in> set ops \<longrightarrow> \<not> isOpen w'"
    "(\<exists>opn \<in> set ops. opn \<noteq> Close \<and> requested opn = 0) \<longrightarrow> 0 < dataPacketsCount w'"
    by simp_all
  show ?case using s r by auto
qed

lemma padPacket_overflow:
  "n mod 4 \<noteq> 0 \<Longrightarrow> DATA_PACKET_MAX - 1 \<le> p + (3 - n mod 4) \<Longrightarrow>
   padPacket p n = Inl ErrorInternal"
proof (induction p n rule: padPacket.induct)
  case (1 p n)
  show ?case
  proof (cases "DATA_PACKET_MAX - 1 \<le> p")
    case True
    with "1.prems"(1) show ?thesis by (simp add: padPacket.simps [of p n])
  next
    case False
    have r: "n mod 4 = 1 \<or> n mod 4 = 2 \<or> n mod 4 = 3"
    proof -
      define r where "r = n mod 4"
      have "r < 4" "r \<noteq> 0" using "1.prems"(1) by (simp_all add: r_def)
      then have "r = 1 \<or> r = 2 \<or> r = 3" by arith
      then show ?thesis by (simp only: r_def)
    qed
    have s: "(n + 1) mod 4 = (n mod 4 + 1) mod 4" by (rule mod_add_left_eq [symmetric])
    from r False "1.prems"(2) have n3: "n mod 4 \<noteq> 3" by auto
    with r s have nz: "(n + 1) mod 4 \<noteq> 0" and eq: "(n + 1) mod 4 = n mod 4 + 1" by auto
    have "DATA_PACKET_MAX - 1 \<le> p + 1 + (3 - (n + 1) mod 4)"
      using "1.prems"(2) r n3 unfolding eq by auto
    from "1.IH" [OF "1.prems"(1) False nz this] "1.prems"(1) False
    show ?thesis by (simp add: padPacket.simps [of p n])
  qed
qed

subsection \<open>Errors of \<^verbatim>\<open>write\<close>\<close>















text \<open>
  Claim C9. \<^verbatim>\<open>write(sbufs, n)\<close> calls \<^verbatim>\<open>setBuffers\<close> before it looks whether the writer
  is open. On a closed writer, which still holds its buffers, a sequence of another length
  throws \<open>ErrorBuffersNotCompatible\<close>; a sequence that \<^verbatim>\<open>setBuffers\<close> accepts replaces the
  stored buffers, and then the call throws \<open>ErrorWriterNotOpen\<close>.
\<close>

theorem writeBuffers_closed_writer:
  assumes "\<not> isOpen w"
  shows "(sbufs w \<noteq> [] \<and> length newBufs \<noteq> length (sbufs w) \<longrightarrow>
            writeBuffers fuel E X newBufs n w = Some (Inl (ErrorBuffersNotCompatible, w))) \<and>
         (length newBufs = length (sbufs w) \<and> checkCompatibleAll X (sbufs w) newBufs = None \<and>
          checkBuffers X newBufs = None \<longrightarrow>
            writeBuffers fuel E X newBufs n w
              = Some (Inl (ErrorWriterNotOpen, w\<lparr>sbufs := newBufs\<rparr>)))"
  using assms
  by (auto simp add: writeBuffers_def setBuffers_def writeRecords_def checkWriterOpen_def)

theorem writeBuffers_closed_writer_witness:
  "\<not> isOpen closedWriter \<and> sbufs closedWriter \<noteq> [] \<and>
   writeBuffers 0 byteEncoderOps exampleCollaborators
       [exampleBuffer ''x'' 10, exampleBuffer ''y'' 10] 1 closedWriter
     = Some (Inl (ErrorBuffersNotCompatible, closedWriter)) \<and>
   checkCompatibleAll exampleCollaborators (sbufs closedWriter) [exampleBuffer ''x'' 20] = None \<and>
   checkBuffers exampleCollaborators [exampleBuffer ''x'' 20] = None \<and>
   writeBuffers 0 byteEncoderOps exampleCollaborators [exampleBuffer ''x'' 20] 1 closedWriter
     = Some (Inl (ErrorWriterNotOpen, closedWriter\<lparr>sbufs := [exampleBuffer ''x'' 20]\<rparr>))"
  using writeBuffers_closed_writer
      [of closedWriter "[exampleBuffer ''x'' 10, exampleBuffer ''y'' 10]" 0 byteEncoderOps
          exampleCollaborators 1]
    writeBuffers_closed_writer
      [of closedWriter "[exampleBuffer ''x'' 20]" 0 byteEncoderOps exampleCollaborators 1]
  by (simp add: closedWriter_def exampleCollaborators_def sameCapacity_def exampleBuffer_def)

subsection \<open>\<^verbatim>\<open>close\<close> on a closed writer\<close>

text \<open>
  Claim C8 says that a second \<^verbatim>\<open>close\<close> changes nothing. The code decrements the writer
  count of the file before it looks at \<^verbatim>\<open>isOpen_\<close>: \<^verbatim>\<open>close\<close> on a closed writer returns
  without an error, writes nothing and leaves every member of the writer as it was, but the
  writer count of the file is one less after the call.
\<close>

theorem close_closed_writer:
  assumes "\<not> isOpen w"
  shows "close fuel E X w =
           Some (Inr ((), w\<lparr>imf := (imf w)\<lparr>writerCount := writerCount (imf w) - 1\<rparr>\<rparr>))"
  using assms by (simp add: close_def decrWriterCount_def)

text \<open>
  The file of the example has no open writer before the constructor runs. After the
  constructor and one \<^verbatim>\<open>close\<close> the count is 0 again, after the second \<^verbatim>\<open>close\<close> it is -1.
\<close>

theorem close_closed_writer_witness:
  "construct byteEncoderOps exampleCollaborators exampleNode exampleFile [exampleBuffer ''x'' 10]
     = Inr constructedWriter \<and>
   close 0 byteEncoderOps exampleCollaborators constructedWriter = Some (Inr ((), closedWriter)) \<and>
   \<not> isOpen closedWriter \<and> writerCount (imf closedWriter) = 0 \<and>
   close 0 byteEncoderOps exampleCollaborators closedWriter
     = Some (Inr ((), closedWriter\<lparr>imf := (imf closedWriter)\<lparr>writerCount := - 1\<rparr>\<rparr>))"
  using close_closed_writer [of closedWriter 0 byteEncoderOps exampleCollaborators]
    construct_example close_example
  by (simp add: closedWriter_def)

subsection \<open>The error of a single precision operation\<close>

lemma blen_bounds: "0 < n \<Longrightarrow> 2 ^ (blen n - 1) \<le> n \<and> n < 2 ^ blen n"
proof (induction n rule: blen.induct)
  case (1 n)
  show ?case
  proof (cases "n div 2 = 0")
    case True
    with "1.prems" have "n = 1" by presburger
    then show ?thesis by (simp add: blen.simps)
  next
    case False
    then have pos: "0 < n div 2" by simp
    from "1.IH" "1.prems" pos
    have ih: "2 ^ (blen (n div 2) - 1) \<le> n div 2" "n div 2 < 2 ^ blen (n div 2)" by auto
    have b: "blen n = Suc (blen (n div 2))" using "1.prems" by (subst blen.simps) simp
    have bp: "0 < blen (n div 2)" using pos by (subst blen.simps) simp
    then have e: "(2::nat) ^ blen (n div 2) = 2 * 2 ^ (blen (n div 2) - 1)"
      by (cases "blen (n div 2)") auto
    define m where "m = n div 2"
    define k where "k = (2::nat) ^ (blen (n div 2) - 1)"
    have d: "2 * m \<le> n" "n < 2 * m + 2" unfolding m_def by simp_all
    have i: "k \<le> m" "m < 2 * k" using ih e unfolding m_def k_def by simp_all
    have "2 * k \<le> n \<and> n < 2 * (2 * k)" using d i by arith
    then show ?thesis unfolding b k_def using e by simp
  qed
qed

lemma round_even_err:
  assumes "0 < den"
  shows "\<bar>real (round_even num den) - real num / real den\<bar> \<le> 1 / 2"
proof -
  define d where "d = num div den"
  define r where "r = num mod den"
  have n: "real num = real d * real den + real r"
    unfolding d_def r_def by (metis div_mult_mod_eq of_nat_add of_nat_mult)
  have rl: "r < den" unfolding r_def using assms by simp
  have q: "real num / real den = real d + real r / real den"
    using assms by (simp add: n field_simps)
  have c1: "2 * r < den \<Longrightarrow> real r / real den \<le> 1 / 2"
    using assms by (simp add: field_simps)
  have c2: "den \<le> 2 * r \<Longrightarrow> 1 / 2 \<le> real r / real den"
    using assms by (simp add: field_simps)
  have c3: "real r / real den < 1" using rl assms by simp
  have c0: "0 \<le> real r / real den" by simp
  have c4: "\<not> 2 * r < den \<Longrightarrow> \<not> den < 2 * r \<Longrightarrow> real r / real den = 1 / 2"
  proof -
    assume "\<not> 2 * r < den" "\<not> den < 2 * r"
    then have "den = 2 * r" by simp
    then have "real den = 2 * real r" by simp
    with assms show ?thesis by simp
  qed
  show ?thesis
    unfolding round_even_def Let_def d_def [symmetric] r_def [symmetric] q
    using c0 c1 c2 c3 c4 by auto
qed

lemma scale_eq:
  assumes "0 < q"
  shows "real (p * 2 ^ nat (- t)) / real (q * 2 ^ nat t) = real p / real q * 2 powi (- t)"
proof (cases "0 \<le> t")
  case True
  then have n: "nat (- t) = 0" by simp
  have e: "(2::real) powi (- t) = 1 / 2 ^ nat t"
    using True by (simp add: power_int_def power_divide inverse_eq_divide)
  show ?thesis unfolding e n by simp
next
  case False
  then have n: "nat t = 0" by simp
  have e: "(2::real) powi (- t) = 2 ^ nat (- t)"
    using False by (simp add: power_int_def)
  show ?thesis unfolding e n by simp
qed

lemma ratio_bounds:
  assumes "0 < p" "0 < q"
  shows "2 powi (int (blen p) - int (blen q) - 1) \<le> real p / real q"
    and "real p / real q < 2 powi (int (blen p) - int (blen q) + 1)"
proof -
  from blen_bounds [OF assms(1)] have p1: "2 ^ (blen p - 1) \<le> real p" and p2: "real p < 2 ^ blen p"
    by (metis of_nat_le_iff of_nat_numeral of_nat_power, metis of_nat_less_iff of_nat_numeral of_nat_power)
  from blen_bounds [OF assms(2)] have q1: "2 ^ (blen q - 1) \<le> real q" and q2: "real q < 2 ^ blen q"
    by (metis of_nat_le_iff of_nat_numeral of_nat_power, metis of_nat_less_iff of_nat_numeral of_nat_power)
  have bp: "0 < blen p" using assms(1) by (subst blen.simps) simp
  have bq: "0 < blen q" using assms(2) by (subst blen.simps) simp
  have e1: "(2::real) powi (int (blen p) - int (blen q) - 1) = 2 ^ (blen p - 1) / 2 ^ blen q"
  proof -
    have h: "int (blen p) - int (blen q) - 1 = int (blen p - 1) - int (blen q)" using bp by simp
    have "(2::real) powi (int (blen p - 1) - int (blen q)) = 2 powi int (blen p - 1) / 2 powi int (blen q)"
      by (rule power_int_diff) simp
    then show ?thesis by (simp only: h power_int_of_nat)
  qed
  have e2: "(2::real) powi (int (blen p) - int (blen q) + 1) = 2 ^ blen p / 2 ^ (blen q - 1)"
  proof -
    have h: "int (blen p) - int (blen q) + 1 = int (blen p) - int (blen q - 1)" using bq by simp
    have "(2::real) powi (int (blen p) - int (blen q - 1)) = 2 powi int (blen p) / 2 powi int (blen q - 1)"
      by (rule power_int_diff) simp
    then show ?thesis by (simp only: h power_int_of_nat)
  qed
  have qpos: "0 < real q" using assms by simp
  have "2 ^ (blen p - 1) / 2 ^ blen q \<le> real p / real q"
    using p1 q2 qpos by (intro frac_le) auto
  then show "2 powi (int (blen p) - int (blen q) - 1) \<le> real p / real q" by (simp add: e1)
  have "real p / real q < 2 ^ blen p / 2 ^ (blen q - 1)"
    using p2 q1 qpos by (intro frac_less) auto
  then show "real p / real q < 2 powi (int (blen p) - int (blen q) + 1)" by (simp add: e2)
qed

lemma fround_err:
  assumes "0 < p" "0 < q"
  shows "\<bar>fval (fround p q s) - real p / real q * 2 powi s\<bar> \<le> real p / real q * 2 powi s / 2 ^ 24"
proof -
  define x where "x = real p / real q"
  define t0 where "t0 = int (blen p) - int (blen q) - 24"
  define t where "t = (if p * 2 ^ nat (- t0) < 2 ^ 24 * (q * 2 ^ nat t0) then t0 else t0 + 1)"
  define y where "y = x * 2 powi (- t)"
  define m where "m = round_even (p * 2 ^ nat (- t)) (q * 2 ^ nat t)"
  have xpos: "0 < x" unfolding x_def using assms by simp
  have fr: "fround p q s = (m, t + s)"
    using assms unfolding fround_def Let_def m_def t_def t0_def by simp
  have y0: "real (p * 2 ^ nat (- t0)) / real (q * 2 ^ nat t0) = x * 2 powi (- t0)"
    unfolding x_def by (rule scale_eq [OF assms(2)])
  have cond: "(p * 2 ^ nat (- t0) < 2 ^ 24 * (q * 2 ^ nat t0)) = (x * 2 powi (- t0) < 2 ^ 24)"
  proof -
    have dpos: "0 < real (q * 2 ^ nat t0)" using assms by simp
    have "(p * 2 ^ nat (- t0) < 2 ^ 24 * (q * 2 ^ nat t0))
        = (real (p * 2 ^ nat (- t0)) < real (2 ^ 24 * (q * 2 ^ nat t0)))"
      by (simp only: of_nat_less_iff)
    also have "\<dots> = (real (p * 2 ^ nat (- t0)) < 2 ^ 24 * real (q * 2 ^ nat t0))" by simp
    also have "\<dots> = (real (p * 2 ^ nat (- t0)) / real (q * 2 ^ nat t0) < 2 ^ 24)"
      using dpos by (simp only: pos_divide_less_eq)
    finally show ?thesis by (simp only: y0)
  qed
  have lo0: "2 powi (t0 + 23) \<le> x"
    using ratio_bounds(1) [OF assms] unfolding x_def t0_def by (simp add: algebra_simps)
  have hi0: "x < 2 powi (t0 + 25)"
    using ratio_bounds(2) [OF assms] unfolding x_def t0_def by (simp add: algebra_simps)
  have sh: "\<And>a b. x * 2 powi (- a) < 2 powi b \<longleftrightarrow> x < 2 powi (a + b)"
    by (simp add: power_int_add power_int_minus field_simps)
  have sh2: "\<And>a b. 2 powi b \<le> x * 2 powi (- a) \<longleftrightarrow> 2 powi (a + b) \<le> x"
    by (simp add: power_int_add power_int_minus field_simps)
  have p24: "(2::real) ^ 24 = 2 powi 24" and p23: "(2::real) ^ 23 = 2 powi 23"
    by (simp_all add: power_int_def)
  have ylo: "2 ^ 23 \<le> y"
  proof (cases "x * 2 powi (- t0) < 2 ^ 24")
    case True
    then have "t = t0" unfolding t_def cond by simp
    then show ?thesis unfolding y_def p23 sh2 using lo0 by simp
  next
    case False
    then have tt: "t = t0 + 1" unfolding t_def cond by simp
    from False have "2 powi (t0 + 24) \<le> x" unfolding p24 sh by simp
    then show ?thesis unfolding y_def p23 sh2 tt by (simp add: algebra_simps)
  qed
  have my: "\<bar>real m - y\<bar> \<le> 1 / 2"
  proof -
    have "0 < q * 2 ^ nat t" using assms by simp
    from round_even_err [OF this, of "p * 2 ^ nat (- t)"]
    show ?thesis unfolding m_def y_def x_def scale_eq [OF assms(2)] .
  qed
  have half: "1 / 2 \<le> y / 2 ^ 24" using ylo by simp
  have xs: "x * 2 powi s = y * 2 powi (t + s)"
    unfolding y_def by (simp add: power_int_add power_int_minus field_simps)
  have fv: "fval (fround p q s) = real m * 2 powi (t + s)" by (simp add: fr fval_def)
  have "\<bar>fval (fround p q s) - x * 2 powi s\<bar> = \<bar>real m - y\<bar> * 2 powi (t + s)"
    unfolding fv xs by (simp add: abs_mult left_diff_distrib [symmetric])
  also have "\<dots> \<le> y / 2 ^ 24 * 2 powi (t + s)"
    using my half by (intro mult_right_mono) auto
  also have "\<dots> = x * 2 powi s / 2 ^ 24" unfolding xs by simp
  finally show ?thesis unfolding x_def .
qed

lemma fval_nonneg: "0 \<le> fval x"
  by (simp add: fval_def)

lemma fval_pos_iff: "0 < fval x \<longleftrightarrow> 0 < fst x"
  by (simp add: fval_def zero_less_mult_iff)

lemma fround_bounds:
  assumes "0 < q"
  shows "fval (fround p q s) \<le> real p / real q * 2 powi s * (1 + float_eps)"
    and "real p / real q * 2 powi s * (1 - float_eps) \<le> fval (fround p q s)"
proof -
  have "fval (fround p q s) \<le> real p / real q * 2 powi s * (1 + float_eps) \<and>
        real p / real q * 2 powi s * (1 - float_eps) \<le> fval (fround p q s)"
  proof (cases "p = 0")
    case True
    then show ?thesis by (simp add: fround_def fval_def)
  next
    case False
    then have "0 < p" by simp
    define x where "x = real p / real q * 2 powi s"
    define v where "v = fval (fround p q s)"
    from fround_err [OF \<open>0 < p\<close> assms, of s] have "\<bar>v - x\<bar> \<le> x / 2 ^ 24"
      unfolding x_def v_def .
    then have "v \<le> x + x / 2 ^ 24" "x - x / 2 ^ 24 \<le> v" by linarith+
    then have "v \<le> x * (1 + float_eps) \<and> x * (1 - float_eps) \<le> v"
      by (simp add: float_eps_def algebra_simps)
    then show ?thesis unfolding x_def v_def .
  qed
  then show "fval (fround p q s) \<le> real p / real q * 2 powi s * (1 + float_eps)"
    and "real p / real q * 2 powi s * (1 - float_eps) \<le> fval (fround p q s)" by simp_all
qed

lemma of_size_bounds:
  "fval (of_size n) \<le> real n * (1 + float_eps)"
  "real n * (1 - float_eps) \<le> fval (of_size n)"
  using fround_bounds [of 1 n 0] by (simp_all add: of_size_def)

lemma fval_ratio:
  assumes "0 < fst y"
  shows "real (fst x) / real (fst y) * 2 powi (snd x - snd y) = fval x / fval y"
proof -
  have "(2::real) powi (snd x - snd y) = 2 powi snd x / 2 powi snd y"
    by (rule power_int_diff) simp
  then show ?thesis using assms by (simp add: fval_def)
qed

lemma fdiv_bounds:
  assumes "0 < fst y"
  shows "fval (fdiv x y) \<le> fval x / fval y * (1 + float_eps)"
    and "fval x / fval y * (1 - float_eps) \<le> fval (fdiv x y)"
  using fround_bounds [OF assms, of "fst x" "snd x - snd y"]
  unfolding fdiv_def fval_ratio [OF assms] by simp_all

lemma fmul_bounds:
  "fval (fmul x y) \<le> fval x * fval y * (1 + float_eps)"
  "fval x * fval y * (1 - float_eps) \<le> fval (fmul x y)"
proof -
  have e: "real (fst x * fst y) / real 1 * 2 powi (snd x + snd y) = fval x * fval y"
    by (simp add: fval_def power_int_add)
  from fround_bounds [of 1 "fst x * fst y" "snd x + snd y"]
  show "fval (fmul x y) \<le> fval x * fval y * (1 + float_eps)"
    and "fval x * fval y * (1 - float_eps) \<le> fval (fmul x y)"
    unfolding fmul_def e by simp_all
qed

lemma ffloor_bounds:
  "real (ffloor x) \<le> fval x" "fval x < real (ffloor x) + 1"
proof -
  have "real (ffloor x) \<le> fval x \<and> fval x < real (ffloor x) + 1"
  proof (cases "0 \<le> snd x")
    case True
    then have "(2::real) powi snd x = 2 ^ nat (snd x)" by (simp add: power_int_def)
    with True show ?thesis by (simp add: ffloor_def fval_def)
  next
    case False
    define d where "d = (2::nat) ^ nat (- snd x)"
    have dpos: "0 < d" by (simp add: d_def)
    have p: "(2::real) powi snd x = 1 / real d"
      using False by (simp add: power_int_def d_def power_divide inverse_eq_divide)
    have v: "fval x = real (fst x) / real d" by (simp add: fval_def p)
    have f: "ffloor x = fst x div d" using False by (simp add: ffloor_def d_def)
    have m: "fst x = (fst x div d) * d + fst x mod d" by simp
    have "real (fst x div d) * real d \<le> real (fst x)"
      by (metis m of_nat_mult of_nat_le_iff le_add1)
    then have lo: "real (fst x div d) \<le> real (fst x) / real d"
      using dpos by (simp add: pos_le_divide_eq)
    have "fst x mod d < d" using dpos by simp
    then have "fst x < (fst x div d + 1) * d" using m
      by (metis add.commute add_less_cancel_left mult.commute mult_Suc_right Suc_eq_plus1)
    then have "real (fst x) < real ((fst x div d + 1) * d)" by (simp only: of_nat_less_iff)
    then have hi: "real (fst x) / real d < real (fst x div d) + 1"
      using dpos by (simp add: pos_divide_less_eq algebra_simps)
    from lo hi show ?thesis by (simp add: v f)
  qed
  then show "real (ffloor x) \<le> fval x" "fval x < real (ffloor x) + 1" by simp_all
qed

lemma float_eps_range: "0 < float_eps" "float_eps < 1"
  by (simp_all add: float_eps_def)

lemma of_size_pos: "0 < n \<Longrightarrow> 0 < fst (of_size n)"
proof -
  assume "0 < n"
  then have "0 < real n * (1 - float_eps)" using float_eps_range by simp
  with of_size_bounds(2) [of n] have "0 < fval (of_size n)" by linarith
  then show ?thesis by (simp add: fval_pos_iff)
qed

lemma fraction_upper:
  assumes "0 < T"
  shows "fval (fdiv (of_size Q) (of_size T))
           \<le> real Q / real T * ((1 + float_eps) ^ 2 / (1 - float_eps))"
proof -
  note e = float_eps_range
  have t: "0 < real T * (1 - float_eps)" using assms e by simp
  have "fval (of_size Q) / fval (of_size T) \<le> (real Q * (1 + float_eps)) / (real T * (1 - float_eps))"
  proof (rule frac_le [OF _ of_size_bounds(1) t of_size_bounds(2)])
    show "0 \<le> real Q * (1 + float_eps)" using e by simp
  qed
  then have "fval (of_size Q) / fval (of_size T) * (1 + float_eps)
               \<le> (real Q * (1 + float_eps)) / (real T * (1 - float_eps)) * (1 + float_eps)"
    using e by (intro mult_right_mono) simp_all
  with fdiv_bounds(1) [OF of_size_pos [OF assms], of "of_size Q"]
  have "fval (fdiv (of_size Q) (of_size T))
          \<le> (real Q * (1 + float_eps)) / (real T * (1 - float_eps)) * (1 + float_eps)"
    by linarith
  also have "\<dots> = real Q / real T * ((1 + float_eps) ^ 2 / (1 - float_eps))"
    by (simp add: power2_eq_square)
  finally show ?thesis .
qed

lemma fraction_lower:
  assumes "0 < T"
  shows "real Q / real T * ((1 - float_eps) ^ 2 / (1 + float_eps))
           \<le> fval (fdiv (of_size Q) (of_size T))"
proof -
  note e = float_eps_range
  have tp: "0 < fval (of_size T)" using of_size_pos [OF assms] by (simp add: fval_pos_iff)
  have q: "0 \<le> real Q * (1 - float_eps)" using e by simp
  have "(real Q * (1 - float_eps)) / (real T * (1 + float_eps)) \<le> fval (of_size Q) / fval (of_size T)"
    by (rule frac_le [OF fval_nonneg of_size_bounds(2) tp of_size_bounds(1)])
  then have "(real Q * (1 - float_eps)) / (real T * (1 + float_eps)) * (1 - float_eps)
               \<le> fval (of_size Q) / fval (of_size T) * (1 - float_eps)"
    using e by (intro mult_right_mono) simp_all
  with fdiv_bounds(2) [OF of_size_pos [OF assms], of "of_size Q"]
  have ineq: "(real Q * (1 - float_eps)) / (real T * (1 + float_eps)) * (1 - float_eps)
          \<le> fval (fdiv (of_size Q) (of_size T))"
    by linarith
  have eq: "(real Q * (1 - float_eps)) / (real T * (1 + float_eps)) * (1 - float_eps)
      = real Q / real T * ((1 - float_eps) ^ 2 / (1 + float_eps))"
    by (simp add: power2_eq_square)
  show ?thesis using ineq by (simp only: eq)
qed

lemma share_upper:
  assumes "0 < T"
  shows "real (ffloor (fmul (fdiv (of_size Q) (of_size T)) (of_size a)))
           \<le> real Q * real a / real T * ((1 + float_eps) ^ 4 / (1 - float_eps))"
proof -
  note e = float_eps_range
  define F where "F = fval (fdiv (of_size Q) (of_size T))"
  define A where "A = fval (of_size a)"
  define K where "K = real Q / real T * ((1 + float_eps) ^ 2 / (1 - float_eps))"
  have F: "F \<le> K" "0 \<le> F" unfolding F_def K_def
    by (rule fraction_upper [OF assms], rule fval_nonneg)
  have A: "A \<le> real a * (1 + float_eps)" "0 \<le> A" unfolding A_def
    by (rule of_size_bounds, rule fval_nonneg)
  have K0: "0 \<le> K" using F by linarith
  have "F * A \<le> K * (real a * (1 + float_eps))"
    by (rule mult_mono [OF F(1) A(1) K0 A(2)])
  then have "F * A * (1 + float_eps) \<le> K * (real a * (1 + float_eps)) * (1 + float_eps)"
    using e by (intro mult_right_mono) simp_all
  with fmul_bounds(1) [of "fdiv (of_size Q) (of_size T)" "of_size a"]
    ffloor_bounds(1) [of "fmul (fdiv (of_size Q) (of_size T)) (of_size a)"]
  have "real (ffloor (fmul (fdiv (of_size Q) (of_size T)) (of_size a)))
          \<le> K * (real a * (1 + float_eps)) * (1 + float_eps)"
    unfolding F_def A_def by linarith
  also have "\<dots> = real Q * real a / real T * ((1 + float_eps) ^ 4 / (1 - float_eps))"
    unfolding K_def by (simp add: power2_eq_square power4_eq_xxxx)
  finally show ?thesis .
qed

lemma share_lower:
  assumes "0 < T"
  shows "real Q * real a / real T * ((1 - float_eps) ^ 4 / (1 + float_eps)) - 1
           < real (ffloor (fmul (fdiv (of_size Q) (of_size T)) (of_size a)))"
proof -
  note e = float_eps_range
  define F where "F = fval (fdiv (of_size Q) (of_size T))"
  define A where "A = fval (of_size a)"
  define K where "K = real Q / real T * ((1 - float_eps) ^ 2 / (1 + float_eps))"
  have F: "K \<le> F" unfolding F_def K_def by (rule fraction_lower [OF assms])
  have A: "real a * (1 - float_eps) \<le> A" unfolding A_def by (rule of_size_bounds)
  have K0: "0 \<le> K" unfolding K_def using e by simp
  have a0: "0 \<le> real a * (1 - float_eps)" using e by simp
  have "K * (real a * (1 - float_eps)) \<le> F * A"
    by (rule mult_mono [OF F A]) (use K0 a0 F in linarith)+
  then have "K * (real a * (1 - float_eps)) * (1 - float_eps) \<le> F * A * (1 - float_eps)"
    using e by (intro mult_right_mono) simp_all
  with fmul_bounds(2) [of "fdiv (of_size Q) (of_size T)" "of_size a"]
    ffloor_bounds(2) [of "fmul (fdiv (of_size Q) (of_size T)) (of_size a)"]
  have ineq: "K * (real a * (1 - float_eps)) * (1 - float_eps) - 1
          < real (ffloor (fmul (fdiv (of_size Q) (of_size T)) (of_size a)))"
    unfolding F_def A_def by linarith
  have eq: "K * (real a * (1 - float_eps)) * (1 - float_eps)
      = real Q * real a / real T * ((1 - float_eps) ^ 4 / (1 + float_eps))"
    unfolding K_def by (simp add: power2_eq_square power4_eq_xxxx)
  show ?thesis using ineq by (simp only: eq)
qed

lemma proportionalCounts_Inr:
  "proportionalCounts f as = Inr cs \<longleftrightarrow>
     cs = map (\<lambda>a. ffloor (fmul f (of_size a))) as \<and>
     (\<forall>a \<in> set as. ffloor (fmul f (of_size a)) < 2 ^ 32)"
proof (induction as arbitrary: cs)
  case Nil
  then show ?case by auto
next
  case (Cons a as)
  show ?case
  proof (cases "ffloor (fmul f (of_size a)) < 2 ^ 32")
    case False
    then show ?thesis by (simp add: Let_def)
  next
    case True
    show ?thesis
    proof (cases "proportionalCounts f as")
      case (Inl e)
      with Cons.IH [of "map (\<lambda>a. ffloor (fmul f (of_size a))) as"]
      have "\<not> (\<forall>a \<in> set as. ffloor (fmul f (of_size a)) < 2 ^ 32)" by simp
      with True Inl show ?thesis by (auto simp add: Let_def)
    next
      case (Inr cs')
      with Cons.IH [of cs'] True show ?thesis by (auto simp add: Let_def)
    qed
  qed
qed

lemma sum_list_share:
  "(\<And>a. a \<in> set as \<Longrightarrow> real (g a) \<le> K * real a) \<Longrightarrow>
   real (sum_list (map g as)) \<le> K * real (sum_list as)"
proof (induction as)
  case Nil
  then show ?case by simp
next
  case (Cons a as)
  have "real (g a) \<le> K * real a" by (rule Cons.prems) simp
  moreover have "real (sum_list (map g as)) \<le> K * real (sum_list as)"
    by (rule Cons.IH) (simp add: Cons.prems)
  ultimately show ?case by (simp add: algebra_simps)
qed

lemma float_up_small: "(1 + float_eps) ^ 4 / (1 - float_eps) < 1 + 1 / 65530"
  by (simp add: float_eps_def power4_eq_xxxx)

lemma float_down_small: "1 - 1 / 65530 < (1 - float_eps) ^ 4 / (1 + float_eps)"
  by (simp add: float_eps_def power4_eq_xxxx)

lemma cPacketMaxPayloadBytes_small:
  "n \<le> 32764 \<Longrightarrow>
   cPacketMaxPayloadBytes n = DATA_PACKET_MAX - sizeof_DataPacketHeader - n * sizeof_uint16 \<and>
   2 \<le> cPacketMaxPayloadBytes n \<and> cPacketMaxPayloadBytes n \<le> 65530"
  by (simp add: cPacketMaxPayloadBytes_def size_t_sub_def DATA_PACKET_MAX_def
        sizeof_DataPacketHeader_def sizeof_uint16_def)

lemma elem_le_sum_list: "a \<in> set as \<Longrightarrow> (a::nat) \<le> sum_list as"
  by (induction as) auto

lemma share_facts:
  assumes T: "0 < T" and a: "a \<le> T" and Q: "Q \<le> 65529"
  defines "c \<equiv> ffloor (fmul (fdiv (of_size Q) (of_size T)) (of_size a))"
  shows "real c < real Q * real a / real T + 1"
    and "real Q * real a / real T - 2 < real c"
    and "c \<le> Q"
proof -
  define x where "x = real Q * real a / real T"
  have x0: "0 \<le> x" unfolding x_def by simp
  have "real Q * real a \<le> real Q * real T" using a by (simp add: mult_left_mono)
  then have "x \<le> real Q" unfolding x_def using T by (simp add: pos_divide_le_eq)
  then have xQ: "x \<le> 65529" using Q by simp
  have "real c \<le> x * ((1 + float_eps) ^ 4 / (1 - float_eps))"
    unfolding c_def x_def by (rule share_upper [OF T])
  also have "\<dots> \<le> x * (1 + 1 / 65530)"
    using float_up_small x0 by (intro mult_left_mono) simp_all
  also have "\<dots> < x + 1" using xQ by (simp add: algebra_simps)
  finally show up: "real c < real Q * real a / real T + 1" unfolding x_def .
  have "x - 2 < x * (1 - 1 / 65530) - 1" using xQ by (simp add: algebra_simps)
  also have "\<dots> \<le> x * ((1 - float_eps) ^ 4 / (1 + float_eps)) - 1"
  proof -
    from float_down_small have "1 - 1 / 65530 \<le> (1 - float_eps) ^ 4 / (1 + float_eps)"
      by (rule less_imp_le)
    from mult_left_mono [OF this x0] show ?thesis by linarith
  qed
  also have "\<dots> < real c"
    unfolding c_def x_def by (rule share_lower [OF T])
  finally show "real Q * real a / real T - 2 < real c" unfolding x_def .
  from up \<open>x \<le> real Q\<close> have "real c < real Q + 1" unfolding x_def by linarith
  then show "c \<le> Q" by linarith
qed

lemma share_sum:
  assumes T: "0 < sum_list as" and Q: "Q \<le> 65529"
  shows "sum_list (map (\<lambda>a. ffloor (fmul (fdiv (of_size Q) (of_size (sum_list as))) (of_size a))) as)
           \<le> Q"
proof -
  define T where "T = sum_list as"
  define U where "U = (1 + float_eps) ^ 4 / (1 - float_eps)"
  define g where "g = (\<lambda>a. ffloor (fmul (fdiv (of_size Q) (of_size T)) (of_size a)))"
  have Tp: "0 < T" using T by (simp add: T_def)
  have Tn: "real T \<noteq> 0" using Tp by simp
  have "\<And>a. a \<in> set as \<Longrightarrow> real (g a) \<le> (real Q * U / real T) * real a"
  proof -
    fix a
    have "real (g a) \<le> real Q * real a / real T * U"
      unfolding g_def U_def by (rule share_upper [OF Tp])
    then show "real (g a) \<le> (real Q * U / real T) * real a" by (simp add: algebra_simps)
  qed
  then have "real (sum_list (map g as)) \<le> (real Q * U / real T) * real (sum_list as)"
    by (rule sum_list_share)
  then have "real (sum_list (map g as)) \<le> (real Q * U / real T) * real T"
    by (simp only: T_def)
  also have "\<dots> = real Q * U" using Tn by simp
  also have "\<dots> \<le> real Q * (1 + 1 / 65530)"
    using float_up_small unfolding U_def by (intro mult_left_mono) simp_all
  also have "\<dots> < real Q + 1" using Q by (simp add: algebra_simps)
  finally have "real (sum_list (map g as)) < real Q + 1" .
  then have "sum_list (map g as) \<le> Q" by linarith
  then show ?thesis unfolding g_def T_def .
qed

subsection \<open>Evaluation of single precision operations\<close>

lemmas float_defs = of_size_def fdiv_def fmul_def ffloor_def fround_def round_even_def Let_def

lemma blen_numeral [simp]:
  "blen 0 = 0" "blen (Suc 0) = Suc 0" "blen (numeral k) = Suc (blen (numeral k div 2))"
  by (simp_all add: blen.simps)

lemma f1: "fdiv (of_size 65525) (of_size 65525001) = (8589935, - 33)"
  by (simp add: float_defs)

lemma c1: "ffloor (fmul (8589935, - 33) (of_size 60000000)) = 60000"
  by (simp add: float_defs)

lemma c2: "ffloor (fmul (8589935, - 33) (of_size 5525001)) = 5525"
  by (simp add: float_defs)

lemma packetCounts_example: "packetCounts [60000000, 5525001] = Inr [60000, 5525]"
  by (simp add: packetCounts_def cPacketMaxPayloadBytes_def size_t_sub_def DATA_PACKET_MAX_def
        sizeof_DataPacketHeader_def sizeof_uint16_def f1 c1 c2)

lemma packetCounts_small_example: "packetCounts [3] = Inr [3]"
  by (simp add: packetCounts_def cPacketMaxPayloadBytes_def size_t_sub_def DATA_PACKET_MAX_def
        sizeof_DataPacketHeader_def sizeof_uint16_def)

lemma exact_example:
  "\<lfloor>real (65526 - 1) * real 60000000 / real (sum_list [60000000, 5525001])\<rfloor> = 59999"
  by (simp add: floor_eq_iff)

subsection \<open>The section that \<^verbatim>\<open>close\<close> leaves\<close>

text \<open>
  Claim C1. A writer is constructed on a file, any operations that return are made on it, and
  it is still open. When \<^verbatim>\<open>close\<close> returns, the writes since the constructor are the data
  packets, then the index packet, then the section header, written at
  \<^verbatim>\<open>sectionHeaderLogicalStart_\<close>. In the header, \<open>dataPhysicalOffset\<close> is the physical
  offset of the first data packet (0 if there is none), \<open>indexPhysicalOffset\<close> is the
  physical offset of the index packet, and \<open>sectionLogicalLength\<close> is the unused logical
  start of the file minus \<^verbatim>\<open>sectionHeaderLogicalStart_\<close>; the index packet ends at the
  unused logical start.
\<close>

theorem section_header_after_close:
  assumes "construct E X ni file0 bufs = Inr w0"
    and "run fuel E X ops w0 = Some w1"
    and "isOpen w1"
    and "close fuel E X w1 = Some (Inr (u, w2))"
  shows "\<exists>ds ip hw.
           emitted file0 w2 = ds @ [ip, hw] \<and>
           list_all isDataWrite ds \<and>
           isIndexWrite ip \<and>
           atLogical ip + byteCount ip = unusedLogicalStart (imf w2) \<and>
           atLogical hw = sectionHeaderLogicalStart w2 \<and>
           content hw = SectionHeaderBytes
             \<lparr>headerSectionLogicalLength =
                unusedLogicalStart (imf w2) - sectionHeaderLogicalStart w2,
              headerDataPhysicalOffset = firstPhysicalOffset X ds,
              headerIndexPhysicalOffset = logicalToPhysical X (atLogical ip)\<rparr>"
proof -
  from construct_step [OF assms(1)] have "reachable X file0 w0" by (simp add: reachable_def)
  from run_reachable [OF assms(2) this] assms(3) have "sectionOpen X file0 w1"
    by (simp add: reachable_def)
  from close_open_step [OF assms(4) assms(3) this]
  have c: "sectionClosed X file0 w2" and st: "sectionHeaderLogicalStart w2 = unusedLogicalStart file0"
    by simp_all
  from c obtain ds ip hw where
    "emitted file0 w2 = ds @ [ip, hw]" "list_all isDataWrite ds"
    "isIndexWrite ip"
    "atLogical ip + byteCount ip = unusedLogicalStart (imf w2)"
    "atLogical hw = unusedLogicalStart file0"
    "content hw = SectionHeaderBytes
          \<lparr>headerSectionLogicalLength = atLogical ip + byteCount ip - unusedLogicalStart file0,
           headerDataPhysicalOffset = firstPhysicalOffset X ds,
           headerIndexPhysicalOffset = logicalToPhysical X (atLogical ip)\<rparr>"
    unfolding sectionClosed_def by (elim exE conjE)
  then show ?thesis unfolding st by (intro exI [where x = ds] exI [where x = ip] exI [where x = hw]) simp
qed

theorem section_header_after_close_witness:
  "construct byteEncoderOps exampleCollaborators exampleNode exampleFile [exampleBuffer ''x'' 10]
     = Inr constructedWriter \<and>
   run (Suc (Suc 0)) byteEncoderOps exampleCollaborators [Write 3] constructedWriter
     = Some writtenWriter \<and>
   isOpen writtenWriter \<and>
   close (Suc 0) byteEncoderOps exampleCollaborators writtenWriter
     = Some (Inr ((), sectionWriter)) \<and>
   (\<exists>ds ip hw.
      emitted exampleFile sectionWriter = ds @ [ip, hw] \<and>
      list_all isDataWrite ds \<and>
      isIndexWrite ip \<and>
      atLogical ip + byteCount ip = unusedLogicalStart (imf sectionWriter) \<and>
      atLogical hw = sectionHeaderLogicalStart sectionWriter \<and>
      content hw = SectionHeaderBytes
        \<lparr>headerSectionLogicalLength =
           unusedLogicalStart (imf sectionWriter) - sectionHeaderLogicalStart sectionWriter,
         headerDataPhysicalOffset = firstPhysicalOffset exampleCollaborators ds,
         headerIndexPhysicalOffset = logicalToPhysical exampleCollaborators (atLogical ip)\<rparr>) \<and>
   last (fileWrites (imf sectionWriter)) =
     \<lparr>atLogical = 1000, byteCount = 32,
      content = SectionHeaderBytes
        \<lparr>headerSectionLogicalLength = 76, headerDataPhysicalOffset = 1036,
         headerIndexPhysicalOffset = 1048\<rparr>\<rparr>"
proof -
  have r: "run (Suc (Suc 0)) byteEncoderOps exampleCollaborators [Write 3] constructedWriter
             = Some writtenWriter"
    by (simp add: step_def write_example)
  have o: "isOpen writtenWriter" by (simp add: writtenWriter_def constructedWriter_def)
  have c: "close (Suc (Suc 0)) byteEncoderOps exampleCollaborators writtenWriter
             = Some (Inr ((), sectionWriter))"
    by (simp add: constructedWriter_def writtenWriter_def sectionWriter_def model_defs
          padPacket_11)
  from section_header_after_close [OF construct_example r o c] r o
  show ?thesis by (simp add: construct_example close_written_example sectionWriter_def)
qed

subsection \<open>The counters\<close>

text \<open>
  Claim C2, as the code has it. For every trace of operations that return, from the
  constructor to a \<^verbatim>\<open>close\<close>, \<^verbatim>\<open>indexPacketsCount_\<close> is 1 after the close, and
  \<^verbatim>\<open>dataPacketsCount_\<close> is at least 1 after the close if the trace has a \<^verbatim>\<open>write\<close> of zero
  records.
\<close>

theorem packets_counted_after_close:
  assumes "construct E X ni file0 bufs = Inr w0"
    and "run fuel E X (ops @ [Close]) w0 = Some w"
  shows "indexPacketsCount w = 1 \<and>
         (Write 0 \<in> set ops \<or> (\<exists>bs. WriteBuffers bs 0 \<in> set ops) \<longrightarrow> 1 \<le> dataPacketsCount w)"
proof -
  from construct_step [OF assms(1)] have "reachable X file0 w0" by (simp add: reachable_def)
  from run_reachable [OF assms(2) this]
  have r: "reachable X file0 w" "\<not> isOpen w"
    "(\<exists>opn \<in> set (ops @ [Close]). opn \<noteq> Close \<and> requested opn = 0) \<longrightarrow> 0 < dataPacketsCount w"
    by simp_all
  from r(1,2) have "indexPacketsCount w = 1" by (simp add: reachable_def sectionClosed_def)
  moreover have "Write 0 \<in> set ops \<or> (\<exists>bs. WriteBuffers bs 0 \<in> set ops) \<Longrightarrow> 1 \<le> dataPacketsCount w"
  proof -
    assume "Write 0 \<in> set ops \<or> (\<exists>bs. WriteBuffers bs 0 \<in> set ops)"
    then have "\<exists>opn \<in> set (ops @ [Close]). opn \<noteq> Close \<and> requested opn = 0" by force
    with r(3) show ?thesis by simp
  qed
  ultimately show ?thesis by blast
qed

theorem packets_counted_after_close_witness:
  "construct byteEncoderOps exampleCollaborators exampleNode exampleFile [exampleBuffer ''x'' 10]
     = Inr constructedWriter \<and>
   run 0 byteEncoderOps exampleCollaborators ([Write 0] @ [Close]) constructedWriter
     = Some zeroRecordsWriter \<and>
   Write 0 \<in> set [Write 0] \<and>
   indexPacketsCount zeroRecordsWriter = 1 \<and> 1 \<le> dataPacketsCount zeroRecordsWriter"
proof -
  have r: "run 0 byteEncoderOps exampleCollaborators ([Write 0] @ [Close]) constructedWriter
             = Some zeroRecordsWriter"
    using write_zero_example by simp
  from packets_counted_after_close [OF construct_example r] r
  show ?thesis by (simp add: construct_example)
qed

text \<open>
  Claim C2 as it is stated fails: the writer that is closed right after its construction has
  written its index packet and no data packet.
\<close>

theorem no_data_packet_counterexample:
  "construct byteEncoderOps exampleCollaborators exampleNode exampleFile [exampleBuffer ''x'' 10]
     = Inr constructedWriter \<and>
   run 0 byteEncoderOps exampleCollaborators [Close] constructedWriter = Some closedWriter \<and>
   indexPacketsCount closedWriter = 1 \<and>
   dataPacketsCount closedWriter = 0"
  by (simp add: construct_example step_def close_example) (simp add: closedWriter_def)

text \<open>
  Claim C7. After a trace of operations that return, from the constructor on,
  \<^verbatim>\<open>recordCount_\<close> is the sum of the record counts that the \<^verbatim>\<open>write\<close> calls of the trace
  requested. \<^verbatim>\<open>write(0)\<close> on an open writer, when the packet passes its verification,
  returns, leaves \<^verbatim>\<open>recordCount_\<close> as it is and writes a data packet of eight bytes that
  has no bytestream.
\<close>

theorem recordCount_is_sum:
  "(construct E X ni file0 bufs = Inr w0 \<and> run fuel E X ops w0 = Some w \<longrightarrow>
      recordCount w = sum_list (map requested ops)) \<and>
   (isOpen v \<and>
    dataPacketVerify X
      \<lparr>header = \<lparr>packetType = DATA_PACKET, packetFlags = 0, packetLogicalLengthMinus1 = 7,
                 bytestreamCount = 0\<rparr>,
       bytestreamBufferLength = [], payload = [0, 0]\<rparr> 8 = None \<longrightarrow>
      (\<exists>v'. writeRecords fuel E X 0 v = Some (Inr ((), v')) \<and>
            recordCount v' = recordCount v \<and>
            fileWrites (imf v') = fileWrites (imf v) @
              [\<lparr>atLogical = unusedLogicalStart (imf v), byteCount = 8,
                content = DataPacketBytes
                  \<lparr>header = \<lparr>packetType = DATA_PACKET, packetFlags = 0,
                             packetLogicalLengthMinus1 = 7, bytestreamCount = 0\<rparr>,
                   bytestreamBufferLength = [], payload = [0, 0]\<rparr>\<rparr>]))"
proof (intro conjI impI)
  assume a: "construct E X ni file0 bufs = Inr w0 \<and> run fuel E X ops w0 = Some w"
  from construct_step [of E X ni file0 bufs w0] a
  have "reachable X file0 w0" "recordCount w0 = 0" by (simp_all add: reachable_def)
  from run_reachable [of fuel E X ops w0 w file0] a this
  show "recordCount w = sum_list (map requested ops)" by simp
next
  let ?zp = "\<lparr>header = \<lparr>packetType = DATA_PACKET, packetFlags = 0, packetLogicalLengthMinus1 = 7,
                 bytestreamCount = 0\<rparr>,
       bytestreamBufferLength = [], payload = [0, 0]\<rparr>"
  assume a: "isOpen v \<and> dataPacketVerify X ?zp 8 = None"
  have rep: "replicate 2 (0::byte) = [0, 0]" by (simp add: numeral_2_eq_2)
  show "\<exists>v'. writeRecords fuel E X 0 v = Some (Inr ((), v')) \<and>
            recordCount v' = recordCount v \<and>
            fileWrites (imf v') = fileWrites (imf v) @
              [\<lparr>atLogical = unusedLogicalStart (imf v), byteCount = 8,
                content = DataPacketBytes ?zp\<rparr>]"
    using a
    by (simp add: writeRecords_def checkWriterOpen_def packetWriteZeroRecords_def
          padZeroRecords_6 Let_def writeDataPacket_eq dataPacketHeader_def header_reset_def
          sizeof_DataPacketHeader_def rep)
qed

theorem recordCount_is_sum_witness:
  "construct byteEncoderOps exampleCollaborators exampleNode exampleFile [exampleBuffer ''x'' 10]
     = Inr constructedWriter \<and>
   run (Suc (Suc 0)) byteEncoderOps exampleCollaborators [Write 3, Close] constructedWriter
     = Some sectionWriter \<and>
   recordCount sectionWriter = sum_list (map requested [Write 3, Close]) \<and>
   recordCount sectionWriter = 3 \<and>
   isOpen constructedWriter \<and>
   (\<exists>v'. writeRecords (Suc (Suc 0)) byteEncoderOps exampleCollaborators 0 constructedWriter
            = Some (Inr ((), v')) \<and>
         recordCount v' = recordCount constructedWriter \<and>
         fileWrites (imf v') = fileWrites (imf constructedWriter) @
           [\<lparr>atLogical = unusedLogicalStart (imf constructedWriter), byteCount = 8,
             content = DataPacketBytes
               \<lparr>header = \<lparr>packetType = DATA_PACKET, packetFlags = 0,
                          packetLogicalLengthMinus1 = 7, bytestreamCount = 0\<rparr>,
                bytestreamBufferLength = [], payload = [0, 0]\<rparr>\<rparr>])"
proof -
  have c: "close (Suc (Suc 0)) byteEncoderOps exampleCollaborators writtenWriter
             = Some (Inr ((), sectionWriter))"
    by (simp add: constructedWriter_def writtenWriter_def sectionWriter_def model_defs
          padPacket_11)
  have r: "run (Suc (Suc 0)) byteEncoderOps exampleCollaborators [Write 3, Close]
             constructedWriter = Some sectionWriter"
    by (simp add: step_def write_example c)
  have o: "isOpen constructedWriter" by (simp add: constructedWriter_def)
  have v: "dataPacketVerify exampleCollaborators
      \<lparr>header = \<lparr>packetType = DATA_PACKET, packetFlags = 0, packetLogicalLengthMinus1 = 7,
                 bytestreamCount = 0\<rparr>,
       bytestreamBufferLength = [], payload = [0, 0]\<rparr> 8 = None"
    by (simp add: exampleCollaborators_def)
  from recordCount_is_sum
    [where E = byteEncoderOps and X = exampleCollaborators and ni = exampleNode
       and ?file0.0 = exampleFile and bufs = "[exampleBuffer ''x'' 10]"
       and ?w0.0 = constructedWriter and fuel = "Suc (Suc 0)" and ops = "[Write 3, Close]"
       and w = sectionWriter and v = constructedWriter]
    construct_example r o v
  show ?thesis by (simp add: sectionWriter_def)
qed

subsection \<open>The length of a data packet\<close>

text \<open>
  With at most 32764 bytestreams the counts exist and their sum is below the payload that fits,
  so that the reads of \<^verbatim>\<open>packetWrite\<close> stay inside the packet buffer and end where the
  counts say.
\<close>

lemma packetCounts_defined:
  assumes "length avail \<le> 32764"
  shows "\<exists>count. packetCounts avail = Inr count \<and> length count = length avail \<and>
           sum_list count < cPacketMaxPayloadBytes (length avail)"
proof -
  define P where "P = cPacketMaxPayloadBytes (length avail)"
  define T where "T = sum_list avail"
  define g where "g = (\<lambda>a. ffloor (fmul (fdiv (of_size (P - 1)) (of_size T)) (of_size a)))"
  from cPacketMaxPayloadBytes_small [OF assms]
  have P: "2 \<le> P" "P \<le> 65530" unfolding P_def by simp_all
  have Q: "P - 1 \<le> 65529" using P by simp
  have sub: "size_t_sub (cPacketMaxPayloadBytes (length avail)) (Suc 0)
               = cPacketMaxPayloadBytes (length avail) - Suc 0"
    using P unfolding P_def by (simp add: size_t_sub_def)
  show ?thesis
  proof (cases "T < P")
    case True
    then have "packetCounts avail = Inr avail" unfolding P_def T_def by (simp add: packetCounts_def)
    with True show ?thesis unfolding P_def T_def by simp
  next
    case False
    with P have Tp: "0 < T" by simp
    have le: "\<And>a. a \<in> set avail \<Longrightarrow> a \<le> T" unfolding T_def by (rule elem_le_sum_list)
    have small: "\<forall>a \<in> set avail. g a < 2 ^ 32"
    proof
      fix a assume "a \<in> set avail"
      from share_facts(3) [OF Tp le [OF this] Q] have "g a \<le> P - 1" unfolding g_def .
      with Q show "g a < 2 ^ 32" by simp
    qed
    have pc: "packetCounts avail = proportionalCounts (fdiv (of_size (P - 1)) (of_size T)) avail"
      using False unfolding P_def T_def packetCounts_def Let_def
      by (simp add: sub)
    have r: "packetCounts avail = Inr (map g avail)"
      unfolding pc proportionalCounts_Inr using small unfolding g_def by simp
    have "sum_list (map g avail) \<le> P - 1"
      using share_sum [of avail "P - 1"] Tp Q unfolding g_def T_def by simp
    with P have "sum_list (map g avail) < P" by simp
    with r show ?thesis unfolding P_def by simp
  qed
qed

lemma packet_end_bound:
  assumes "n \<le> 32764" and "s < cPacketMaxPayloadBytes n"
  shows "sizeof_DataPacketHeader + n * sizeof_uint16 + s < DATA_PACKET_MAX"
  using cPacketMaxPayloadBytes_small [OF assms(1)] assms
  by (simp add: DATA_PACKET_MAX_def sizeof_DataPacketHeader_def sizeof_uint16_def)

lemma outputReadAll_inbounds:
  "length count = length es \<Longrightarrow> p + sum_list count \<le> DATA_PACKET_MAX \<Longrightarrow>
   outputReadAll E vb es count p = (r, bytes, es', p') \<Longrightarrow>
     length es' = length es \<and>
     (r = None \<longrightarrow> p' = p + sum_list count) \<and>
     (\<forall>err. r = Some err \<longrightarrow> (\<exists>i < length es. outputRead E (es ! i) (count ! i) = Inl err))"
proof (induction es arbitrary: count p r bytes es' p')
  case Nil
  then show ?case by simp
next
  case (Cons e es)
  from Cons.prems(1) obtain n cs where count: "count = n # cs" and len: "length cs = length es"
    by (cases count) auto
  from Cons.prems(2) have b: "\<not> DATA_PACKET_MAX < p + n"
    and b': "(p + n) + sum_list cs \<le> DATA_PACKET_MAX"
    by (simp_all add: count)
  show ?case
  proof (cases "outputRead E e n")
    case (Inl err)
    with Cons.prems(3) b have eq: "r = Some err" "es' = e # es"
      by (simp_all add: count)
    have "\<exists>i < length (e # es). outputRead E ((e # es) ! i) (count ! i) = Inl err"
      by (rule exI [where x = 0]) (simp add: count Inl)
    with eq show ?thesis by simp
  next
    case (Inr x)
    obtain bs e' where x: "x = (bs, e')" by (cases x)
    obtain r1 rest es1 p1 where rec: "outputReadAll E vb es cs (p + n) = (r1, rest, es1, p1)"
      by (cases "outputReadAll E vb es cs (p + n)") auto
    from Cons.prems(3) b Inr x rec have eq: "r = r1" "es' = e' # es1" "p' = p1"
      by (simp_all add: count)
    from Cons.IH [OF len b' rec] have ih: "length es1 = length es"
      "r1 = None \<longrightarrow> p1 = p + n + sum_list cs"
      "\<forall>err. r1 = Some err \<longrightarrow> (\<exists>i < length es. outputRead E (es ! i) (cs ! i) = Inl err)"
      by simp_all
    have "\<exists>i < length (e # es). outputRead E ((e # es) ! i) (count ! i) = Inl err"
      if "r1 = Some err" for err
    proof -
      from ih(3) that obtain i where "i < length es" "outputRead E (es ! i) (cs ! i) = Inl err"
        by auto
      then show ?thesis by (intro exI [where x = "Suc i"]) (simp add: count)
    qed
    with ih(1,2) show ?thesis by (simp add: eq count add.assoc)
  qed
qed

lemma padPacket_value:
  "padPacket p n = Inr len \<Longrightarrow> len mod 4 = 0 \<and> n \<le> len \<and> len < n + 4"
proof (induction p n rule: padPacket.induct)
  case (1 p n)
  show ?case
  proof (cases "n mod 4 = 0")
    case True
    with "1.prems" show ?thesis by (simp add: padPacket.simps [of p n])
  next
    case False
    with "1.prems" have nb: "\<not> DATA_PACKET_MAX - 1 \<le> p"
      and rec: "padPacket (p + 1) (n + 1) = Inr len"
      by (simp_all add: padPacket.simps [of p n] split: if_splits)
    from "1.IH" [OF False nb rec] have ih: "len mod 4 = 0" "n + 1 \<le> len" "len < n + 1 + 4"
      by simp_all
    have "len \<noteq> n + 4"
    proof
      assume "len = n + 4"
      with ih(1) have "n mod 4 = 0" by simp
      with False show False by simp
    qed
    with ih show ?thesis by simp
  qed
qed

lemma padPacket_success:
  "p + (4 - n mod 4) mod 4 < DATA_PACKET_MAX \<Longrightarrow> \<exists>len. padPacket p n = Inr len"
proof (induction p n rule: padPacket.induct)
  case (1 p n)
  show ?case
  proof (cases "n mod 4 = 0")
    case True
    then show ?thesis by (simp add: padPacket.simps [of p n])
  next
    case False
    have r: "n mod 4 < 4" by simp
    have s: "(n + 1) mod 4 = (n mod 4 + 1) mod 4" by (rule mod_add_left_eq [symmetric])
    from False r "1.prems" have nb: "\<not> DATA_PACKET_MAX - 1 \<le> p" by auto
    have "p + 1 + (4 - (n + 1) mod 4) mod 4 < DATA_PACKET_MAX"
      using "1.prems" False r unfolding s
      by (cases "n mod 4 = 1"; cases "n mod 4 = 2"; cases "n mod 4 = 3") auto
    from "1.IH" [OF False nb this] False nb show ?thesis
      by (simp add: padPacket.simps [of p n])
  qed
qed

lemma padPacket_fails_iff:
  "padPacket p p = Inl ErrorInternal \<longleftrightarrow> p mod 4 \<noteq> 0 \<and> DATA_PACKET_MAX \<le> p + (4 - p mod 4)"
proof
  assume f: "padPacket p p = Inl ErrorInternal"
  have nz: "p mod 4 \<noteq> 0"
  proof
    assume "p mod 4 = 0"
    then have "padPacket p p = Inr p" by (simp add: padPacket.simps [of p p])
    with f show False by simp
  qed
  have "DATA_PACKET_MAX \<le> p + (4 - p mod 4)"
  proof (rule ccontr)
    assume "\<not> DATA_PACKET_MAX \<le> p + (4 - p mod 4)"
    with nz have "p + (4 - p mod 4) mod 4 < DATA_PACKET_MAX" by auto
    from padPacket_success [OF this] f show False by auto
  qed
  with nz show "p mod 4 \<noteq> 0 \<and> DATA_PACKET_MAX \<le> p + (4 - p mod 4)" by simp
next
  assume a: "p mod 4 \<noteq> 0 \<and> DATA_PACKET_MAX \<le> p + (4 - p mod 4)"
  then have "DATA_PACKET_MAX - 1 \<le> p + (3 - p mod 4)" by auto
  with a show "padPacket p p = Inl ErrorInternal" by (simp add: padPacket_overflow)
qed

lemma packetWrite_reads:
  assumes "0 < totalOutputAvailable E w"
    and "packetCounts (map (outputAvailable E) (bytestreams w)) = Inr count"
    and "sum_list count \<le> cPacketMaxPayloadBytes (length (bytestreams w))"
    and "sizeof_DataPacketHeader + length count * sizeof_uint16 \<le> DATA_PACKET_MAX"
    and "outputReadAll E (VALIDATE_BASIC X) (bytestreams w) count
           (sizeof_DataPacketHeader + length (bytestreams w) * sizeof_uint16) = (r, bytes, es, p')"
  shows "packetWrite E X w =
           (case r of
              Some e \<Rightarrow> Inl (e, w\<lparr>bytestreams := es\<rparr>)
            | None \<Rightarrow> packetFinish X (w\<lparr>bytestreams := es\<rparr>) count (map of_nat count) bytes p')"
  using assms by (simp add: packetWrite_def Let_def bsbLength_def)

lemma packetFinish_pads:
  assumes "p = sizeof_DataPacketHeader + length (bytestreams w) * sizeof_uint16 + sum_list count"
  shows "packetFinish X w count bsb bytes p =
           (case padPacket p p of
              Inl e \<Rightarrow> Inl (e, w)
            | Inr packetLength \<Rightarrow>
                (case dataPacketVerify X
                        \<lparr>header = dataPacketHeader packetLength (length (bytestreams w)),
                         bytestreamBufferLength = bsb,
                         payload = bytes @ replicate (packetLength - p) 0\<rparr> packetLength of
                   Some e \<Rightarrow> Inl (e, w)
                 | None \<Rightarrow>
                     Inr (writeDataPacket X w
                            \<lparr>header = dataPacketHeader packetLength (length (bytestreams w)),
                             bytestreamBufferLength = bsb,
                             payload = bytes @ replicate (packetLength - p) 0\<rparr> packetLength)))"
  unfolding assms packetFinish_def Let_def by simp

lemma padded_bound:
  assumes "p < DATA_PACKET_MAX" and "len mod 4 = 0" and "len < p + 4"
  shows "len \<le> DATA_PACKET_MAX"
proof -
  from assms(1,3) have "len < 65536 + 4" by (simp add: DATA_PACKET_MAX_def)
  moreover have "(65536::nat) mod 4 = 0" by simp
  ultimately have "len \<le> 65536" using assms(2) by presburger
  then show ?thesis by (simp add: DATA_PACKET_MAX_def)
qed

lemma f2: "fdiv (of_size 65527) (of_size 70000) = (15705152, - 24)"
  by (simp add: float_defs)

lemma c3: "ffloor (fmul (15705152, - 24) (of_size 70000)) = 65527"
  by (simp add: float_defs)

lemma packetCounts_full_example: "packetCounts [70000] = Inr [65527]"
  by (simp add: packetCounts_def cPacketMaxPayloadBytes_def size_t_sub_def DATA_PACKET_MAX_def
        sizeof_DataPacketHeader_def sizeof_uint16_def f2 c3)

lemma padPacket_65535: "padPacket 65535 65535 = Inl ErrorInternal"
  by (simp add: padPacket.simps DATA_PACKET_MAX_def)

lemma packetWrite_full_example:
  "packetWrite byteEncoderOps exampleCollaborators fullWriter
     = Inl (ErrorInternal,
            fullWriter\<lparr>bytestreams :=
              [\<lparr>beNumber = 0, beIndex = 70000, beQueue = replicate 4473 0, beRegister = []\<rparr>]\<rparr>)"
  by (simp add: fullWriter_def constructedWriter_def packetWrite_def packetFinish_def
        totalOutputAvailable_def byteEncoderOps_def exampleCollaborators_def bsbLength_def
        cPacketMaxPayloadBytes_def size_t_sub_def DATA_PACKET_MAX_def sizeof_DataPacketHeader_def
        sizeof_uint16_def packetCounts_full_example padPacket_65535)

text \<open>
  Claim C4, for a writer with at most 32764 bytestreams (with more, the length table leaves no
  room for payload). When there is output, \<^verbatim>\<open>packetWrite\<close> takes its counts from
  \<open>packetCounts\<close>, and the header, the length table and the counted bytes end at an offset
  \<open>p\<close> below \<open>DATA_PACKET_MAX\<close>: no byte is stored behind the packet buffer. When the
  call returns, the packet that it has written has a length that is a multiple of 4 and at most
  \<open>DATA_PACKET_MAX\<close>; it is \<open>p\<close>, padded by less than four bytes. When the call throws,
  the exception is that of a read from an encoder, or that of the verification of the packet,
  or \<open>ErrorInternal\<close> from the padding loop; and when the reads return and the padding loop
  throws, the call throws \<open>ErrorInternal\<close>. The packet that \<^verbatim>\<open>packetWriteZeroRecords\<close>
  writes has eight bytes. The padding loop throws exactly when the length is not a multiple of 4
  and the padded length would reach \<open>DATA_PACKET_MAX\<close> or exceed it.
\<close>

theorem data_packet_length:
  "(length (bytestreams w) \<le> 32764 \<and> 0 < totalOutputAvailable E w \<longrightarrow>
      (\<exists>count p.
      packetCounts (map (outputAvailable E) (bytestreams w)) = Inr count \<and>
      p = sizeof_DataPacketHeader + length (bytestreams w) * sizeof_uint16 + sum_list count \<and>
      p < DATA_PACKET_MAX \<and>
      (\<forall>off w'. packetWrite E X w = Inr (off, w') \<longrightarrow>
         (\<exists>pkt len. fileWrites (imf w') = fileWrites (imf w) @
              [\<lparr>atLogical = unusedLogicalStart (imf w), byteCount = len,
                content = DataPacketBytes pkt\<rparr>] \<and>
            len mod 4 = 0 \<and> len \<le> DATA_PACKET_MAX \<and> p \<le> len \<and> len < p + 4)) \<and>
      (\<forall>err w'. packetWrite E X w = Inl (err, w') \<longrightarrow>
         (\<exists>i < length (bytestreams w).
            outputRead E (bytestreams w ! i) (count ! i) = Inl err) \<or>
         (\<exists>pkt len. dataPacketVerify X pkt len = Some err) \<or>
         (err = ErrorInternal \<and> padPacket p p = Inl ErrorInternal)) \<and>
      (fst (outputReadAll E (VALIDATE_BASIC X) (bytestreams w) count
              (sizeof_DataPacketHeader + length (bytestreams w) * sizeof_uint16)) = None \<and>
       padPacket p p = Inl ErrorInternal \<longrightarrow>
         (\<exists>w'. packetWrite E X w = Inl (ErrorInternal, w'))))) \<and>
   (packetWriteZeroRecords X w = Inr (u, w'') \<longrightarrow>
      (\<exists>pkt. fileWrites (imf w'') = fileWrites (imf w) @
           [\<lparr>atLogical = unusedLogicalStart (imf w), byteCount = 8,
             content = DataPacketBytes pkt\<rparr>])) \<and>
   (padPacket q q = Inl ErrorInternal \<longleftrightarrow>
      q mod 4 \<noteq> 0 \<and> DATA_PACKET_MAX \<le> q + (4 - q mod 4))"
proof (intro conjI impI)
  assume "length (bytestreams w) \<le> 32764 \<and> 0 < totalOutputAvailable E w"
  then have N: "length (bytestreams w) \<le> 32764" and pos: "0 < totalOutputAvailable E w"
    by simp_all
  show "\<exists>count p.
        packetCounts (map (outputAvailable E) (bytestreams w)) = Inr count \<and>
        p = sizeof_DataPacketHeader + length (bytestreams w) * sizeof_uint16 + sum_list count \<and>
        p < DATA_PACKET_MAX \<and>
        (\<forall>off w'. packetWrite E X w = Inr (off, w') \<longrightarrow>
           (\<exists>pkt len. fileWrites (imf w') = fileWrites (imf w) @
                [\<lparr>atLogical = unusedLogicalStart (imf w), byteCount = len,
                  content = DataPacketBytes pkt\<rparr>] \<and>
              len mod 4 = 0 \<and> len \<le> DATA_PACKET_MAX \<and> p \<le> len \<and> len < p + 4)) \<and>
        (\<forall>err w'. packetWrite E X w = Inl (err, w') \<longrightarrow>
           (\<exists>i < length (bytestreams w).
              outputRead E (bytestreams w ! i) (count ! i) = Inl err) \<or>
           (\<exists>pkt len. dataPacketVerify X pkt len = Some err) \<or>
           (err = ErrorInternal \<and> padPacket p p = Inl ErrorInternal)) \<and>
        (fst (outputReadAll E (VALIDATE_BASIC X) (bytestreams w) count
                (sizeof_DataPacketHeader + length (bytestreams w) * sizeof_uint16)) = None \<and>
         padPacket p p = Inl ErrorInternal \<longrightarrow>
           (\<exists>w'. packetWrite E X w = Inl (ErrorInternal, w')))"
  proof -
    define n where "n = length (bytestreams w)"
    define p0 where "p0 = sizeof_DataPacketHeader + n * sizeof_uint16"
    from packetCounts_defined [of "map (outputAvailable E) (bytestreams w)"] N
    obtain count where pc: "packetCounts (map (outputAvailable E) (bytestreams w)) = Inr count"
      and lc: "length count = n"
      and sc: "sum_list count < cPacketMaxPayloadBytes n"
      unfolding n_def by auto
    define p where "p = p0 + sum_list count"
    from packet_end_bound [OF N [folded n_def] sc] have pb: "p < DATA_PACKET_MAX"
      unfolding p_def p0_def .
    obtain r bytes es p' where
      ra: "outputReadAll E (VALIDATE_BASIC X) (bytestreams w) count p0 = (r, bytes, es, p')"
      by (cases "outputReadAll E (VALIDATE_BASIC X) (bytestreams w) count p0") auto
    from pb have le: "p0 + sum_list count \<le> DATA_PACKET_MAX" unfolding p_def by simp
    from outputReadAll_inbounds [OF lc [unfolded n_def] le ra]
    have les: "length es = n"
      and rn: "r = None \<Longrightarrow> p' = p"
      and rs: "\<And>err. r = Some err \<Longrightarrow>
                 \<exists>i < n. outputRead E (bytestreams w ! i) (count ! i) = Inl err"
      unfolding n_def p_def by simp_all
    define w1 where "w1 = w\<lparr>bytestreams := es\<rparr>"
    have fit: "sizeof_DataPacketHeader + length count * sizeof_uint16 \<le> DATA_PACKET_MAX"
      using pb unfolding p_def p0_def lc by simp
    from sc have sc': "sum_list count \<le> cPacketMaxPayloadBytes (length (bytestreams w))"
      unfolding n_def by simp
    have pw: "packetWrite E X w =
             (case r of
                Some e \<Rightarrow> Inl (e, w1)
              | None \<Rightarrow> packetFinish X w1 count (map of_nat count) bytes p')"
      unfolding w1_def
      by (rule packetWrite_reads [OF pos pc sc' fit ra [unfolded p0_def n_def]])
    have pe: "p = sizeof_DataPacketHeader + length (bytestreams w1) * sizeof_uint16 + sum_list count"
      unfolding p_def p0_def w1_def by (simp add: les)
    note pf = packetFinish_pads [OF pe, of X "map of_nat count" bytes]
    have A: "\<exists>pkt len. fileWrites (imf w') = fileWrites (imf w) @
                     [\<lparr>atLogical = unusedLogicalStart (imf w), byteCount = len,
                       content = DataPacketBytes pkt\<rparr>] \<and>
                   len mod 4 = 0 \<and> len \<le> DATA_PACKET_MAX \<and> p \<le> len \<and> len < p + 4"
      if ok: "packetWrite E X w = Inr (off, w')" for off w'
    proof -
      from ok pw have r: "r = None" by (cases r) simp_all
      with ok pw rn have fin: "packetFinish X w1 count (map of_nat count) bytes p = Inr (off, w')"
        by simp
      from fin obtain len where pad: "padPacket p p = Inr len"
        unfolding pf by (cases "padPacket p p") simp_all
      from fin pad obtain pkt where wd: "writeDataPacket X w1 pkt len = (off, w')"
        unfolding pf by (auto split: option.splits)
      from padPacket_value [OF pad] have l: "len mod 4 = 0" "p \<le> len" "len < p + 4" by simp_all
      from padded_bound [OF pb l(1) l(3)] have lm: "len \<le> DATA_PACKET_MAX" .
      from wd have "fileWrites (imf w') = fileWrites (imf w) @
                     [\<lparr>atLogical = unusedLogicalStart (imf w), byteCount = len,
                       content = DataPacketBytes pkt\<rparr>]"
        by (auto simp add: writeDataPacket_eq w1_def)
      with l lm show ?thesis
        by (intro exI [where x = pkt] exI [where x = len]) simp
    qed
    have B: "(\<exists>i < length (bytestreams w).
                   outputRead E (bytestreams w ! i) (count ! i) = Inl err) \<or>
                (\<exists>pkt len. dataPacketVerify X pkt len = Some err) \<or>
                (err = ErrorInternal \<and> padPacket p p = Inl ErrorInternal)"
      if bad: "packetWrite E X w = Inl (err, w')" for err w'
    proof (cases r)
      case (Some e)
      with bad pw have "e = err" by simp
      with rs [OF Some] show ?thesis unfolding n_def by simp
    next
      case None
      with bad pw rn have fin: "packetFinish X w1 count (map of_nat count) bytes p = Inl (err, w')"
        by simp
      show ?thesis
      proof (cases "padPacket p p")
        case (Inl e)
        from padPacket_Inl [OF Inl] have "e = ErrorInternal" .
        with Inl fin show ?thesis unfolding pf by simp
      next
        case (Inr len)
        with fin have "\<exists>pkt. dataPacketVerify X pkt len = Some err"
          unfolding pf by (auto split: option.splits)
        then show ?thesis by blast
      qed
    qed
    have C: "\<exists>w'. packetWrite E X w = Inl (ErrorInternal, w')"
      if "fst (outputReadAll E (VALIDATE_BASIC X) (bytestreams w) count
                 (sizeof_DataPacketHeader + length (bytestreams w) * sizeof_uint16)) = None"
        and pad: "padPacket p p = Inl ErrorInternal"
    proof -
      from that(1) ra have r: "r = None" unfolding p0_def n_def by simp
      from rn [OF r] have "packetWrite E X w = Inl (ErrorInternal, w1)"
        unfolding pw r by (simp add: pf pad)
      then show ?thesis by blast
    qed
    have P: "p = sizeof_DataPacketHeader + length (bytestreams w) * sizeof_uint16 + sum_list count"
      unfolding p_def p0_def n_def by simp
    show ?thesis
      apply (rule exI [where x = count], rule exI [where x = p])
      using pc P pb A B C by blast
  qed
next
  assume "packetWriteZeroRecords X w = Inr (u, w'')"
  then show "\<exists>pkt. fileWrites (imf w'') = fileWrites (imf w) @
           [\<lparr>atLogical = unusedLogicalStart (imf w), byteCount = 8,
             content = DataPacketBytes pkt\<rparr>]"
    by (auto simp add: packetWriteZeroRecords_def padZeroRecords_header Let_def
          writeDataPacket_eq split: option.splits)
next
  show "padPacket q q = Inl ErrorInternal \<longleftrightarrow>
      q mod 4 \<noteq> 0 \<and> DATA_PACKET_MAX \<le> q + (4 - q mod 4)"
    by (rule padPacket_fails_iff)
qed

text \<open>
  A writer whose one encoder holds 70000 bytes: the count is 65527, the reads return and end
  at offset 65535, which is the sum that the self-check of \<^verbatim>\<open>VALIDATE_BASIC\<close> expects, and
  \<^verbatim>\<open>packetWrite\<close> throws \<open>ErrorInternal\<close> from the padding loop. The packet of the example trace has twelve bytes: six
  of header, two of length table, three of data and one of padding. The packet without records
  has eight bytes.
\<close>

theorem data_packet_length_witness:
  "length (bytestreams fullWriter) \<le> 32764 \<and>
   0 < totalOutputAvailable byteEncoderOps fullWriter \<and>
   packetCounts (map (outputAvailable byteEncoderOps) (bytestreams fullWriter)) = Inr [65527] \<and>
   sizeof_DataPacketHeader + length (bytestreams fullWriter) * sizeof_uint16 + sum_list [65527]
     = 65535 \<and>
   fst (outputReadAll byteEncoderOps (VALIDATE_BASIC exampleCollaborators)
          (bytestreams fullWriter) [65527]
          (sizeof_DataPacketHeader + length (bytestreams fullWriter) * sizeof_uint16)) = None \<and>
   outputReadAll byteEncoderOps (VALIDATE_BASIC exampleCollaborators)
       (bytestreams fullWriter) [65527]
       (sizeof_DataPacketHeader + length (bytestreams fullWriter) * sizeof_uint16)
     = (None, replicate 65527 0,
        [\<lparr>beNumber = 0, beIndex = 70000, beQueue = replicate 4473 0, beRegister = []\<rparr>],
        65535) \<and>
   (65535::nat) mod 4 = 3 \<and> DATA_PACKET_MAX \<le> 65535 + (4 - 65535 mod 4) \<and>
   padPacket 65535 65535 = Inl ErrorInternal \<and>
   packetWrite byteEncoderOps exampleCollaborators fullWriter
     = Inl (ErrorInternal,
            fullWriter\<lparr>bytestreams :=
              [\<lparr>beNumber = 0, beIndex = 70000, beQueue = replicate 4473 0, beRegister = []\<rparr>]\<rparr>) \<and>
   length (bytestreams (flush byteEncoderOps writtenWriter)) \<le> 32764 \<and>
   0 < totalOutputAvailable byteEncoderOps (flush byteEncoderOps writtenWriter) \<and>
   packetCounts (map (outputAvailable byteEncoderOps)
                   (bytestreams (flush byteEncoderOps writtenWriter))) = Inr [3] \<and>
   (\<exists>off w' pkt.
      packetWrite byteEncoderOps exampleCollaborators (flush byteEncoderOps writtenWriter)
        = Inr (off, w') \<and>
      fileWrites (imf w') = fileWrites (imf (flush byteEncoderOps writtenWriter)) @
        [\<lparr>atLogical = unusedLogicalStart (imf (flush byteEncoderOps writtenWriter)),
          byteCount = 12, content = DataPacketBytes pkt\<rparr>]) \<and>
   (\<exists>w'' pkt.
      packetWriteZeroRecords exampleCollaborators constructedWriter = Inr ((), w'') \<and>
      fileWrites (imf w'') = fileWrites (imf constructedWriter) @
        [\<lparr>atLogical = unusedLogicalStart (imf constructedWriter), byteCount = 8,
          content = DataPacketBytes pkt\<rparr>])"
proof -
  let ?E = byteEncoderOps and ?X = exampleCollaborators
  let ?w = "flush byteEncoderOps writtenWriter"
  let ?full = "fullWriter\<lparr>bytestreams :=
              [\<lparr>beNumber = 0, beIndex = 70000, beQueue = replicate 4473 0, beRegister = []\<rparr>]\<rparr>"
  have n1: "length (bytestreams fullWriter) \<le> 32764"
    and t1: "0 < totalOutputAvailable ?E fullWriter"
    and k1: "packetCounts (map (outputAvailable ?E) (bytestreams fullWriter)) = Inr [65527]"
    by (simp_all add: fullWriter_def totalOutputAvailable_def byteEncoderOps_def
          packetCounts_full_example)
  have p1: "sizeof_DataPacketHeader + length (bytestreams fullWriter) * sizeof_uint16
              + sum_list [65527] = 65535"
    by (simp add: fullWriter_def sizeof_DataPacketHeader_def sizeof_uint16_def)
  have ra: "outputReadAll ?E (VALIDATE_BASIC ?X) (bytestreams fullWriter) [65527]
              (sizeof_DataPacketHeader + length (bytestreams fullWriter) * sizeof_uint16)
            = (None, replicate 65527 0,
               [\<lparr>beNumber = 0, beIndex = 70000, beQueue = replicate 4473 0,
                  beRegister = []\<rparr>],
               65535)"
    by (simp add: fullWriter_def byteEncoderOps_def sizeof_DataPacketHeader_def
          sizeof_uint16_def DATA_PACKET_MAX_def)
  then have r1: "fst (outputReadAll ?E (VALIDATE_BASIC ?X) (bytestreams fullWriter) [65527]
              (sizeof_DataPacketHeader + length (bytestreams fullWriter) * sizeof_uint16)) = None"
    by simp
  have a1: "(65535::nat) mod 4 = 3" "DATA_PACKET_MAX \<le> 65535 + (4 - 65535 mod 4)"
    by (simp_all add: DATA_PACKET_MAX_def)
  note full = data_packet_length [where E = ?E and X = ?X and w = fullWriter and q = 65535]
  from full [THEN conjunct2, THEN conjunct2] a1
  have pad: "padPacket 65535 65535 = Inl ErrorInternal" by simp
  from full [THEN conjunct1, THEN mp, OF conjI [OF n1 t1]]
  obtain count0 p0 where
    pc0: "packetCounts (map (outputAvailable ?E) (bytestreams fullWriter)) = Inr count0"
    and p0: "p0 = sizeof_DataPacketHeader + length (bytestreams fullWriter) * sizeof_uint16
                  + sum_list count0"
    and fail: "fst (outputReadAll ?E (VALIDATE_BASIC ?X) (bytestreams fullWriter) count0
              (sizeof_DataPacketHeader + length (bytestreams fullWriter) * sizeof_uint16)) = None \<and>
         padPacket p0 p0 = Inl ErrorInternal \<longrightarrow>
           (\<exists>w'. packetWrite ?E ?X fullWriter = Inl (ErrorInternal, w'))"
    by (elim exE conjE)
  from pc0 k1 have c0: "count0 = [65527]" by simp
  from p0 p1 have p0': "p0 = 65535" unfolding c0 by simp
  from fail [unfolded c0 p0', THEN mp, OF conjI [OF r1 pad]]
  have "\<exists>w'. packetWrite ?E ?X fullWriter = Inl (ErrorInternal, w')" .
  then have f1: "packetWrite ?E ?X fullWriter = Inl (ErrorInternal, ?full)"
    by (simp add: packetWrite_full_example)
  have n2: "length (bytestreams ?w) \<le> 32764"
    and t2: "0 < totalOutputAvailable ?E ?w"
    and av: "map (outputAvailable ?E) (bytestreams ?w) = [3]"
    by (simp_all add: writtenWriter_def constructedWriter_def flush_def totalOutputAvailable_def
          byteEncoderOps_def)
  have k2: "packetCounts (map (outputAvailable ?E) (bytestreams ?w)) = Inr [3]"
    unfolding av by (rule packetCounts_small_example)
  obtain off w' where pw: "packetWrite ?E ?X ?w = Inr (off, w')"
    by (simp add: constructedWriter_def writtenWriter_def model_defs padPacket_11)
  from data_packet_length [where E = ?E and X = ?X and w = ?w, THEN conjunct1, THEN mp,
         OF conjI [OF n2 t2]]
  obtain count p where
    pc: "packetCounts (map (outputAvailable ?E) (bytestreams ?w)) = Inr count"
    and p: "p = sizeof_DataPacketHeader + length (bytestreams ?w) * sizeof_uint16
                  + sum_list count"
    and ok: "\<forall>off w'. packetWrite ?E ?X ?w = Inr (off, w') \<longrightarrow>
         (\<exists>pkt len. fileWrites (imf w') = fileWrites (imf ?w) @
              [\<lparr>atLogical = unusedLogicalStart (imf ?w), byteCount = len,
                content = DataPacketBytes pkt\<rparr>] \<and>
            len mod 4 = 0 \<and> len \<le> DATA_PACKET_MAX \<and> p \<le> len \<and> len < p + 4)"
    by (elim exE conjE)
  from pc k2 have "count = [3]" by simp
  with p have p11: "p = 11"
    by (simp add: writtenWriter_def constructedWriter_def flush_def sizeof_DataPacketHeader_def
          sizeof_uint16_def)
  from ok [rule_format, OF pw] obtain pkt len where
    fw: "fileWrites (imf w') = fileWrites (imf ?w) @
           [\<lparr>atLogical = unusedLogicalStart (imf ?w), byteCount = len,
             content = DataPacketBytes pkt\<rparr>]"
    and l: "len mod 4 = 0" "p \<le> len" "len < p + 4"
    by (elim exE conjE)
  from l have "len = 12" unfolding p11 by presburger
  with pw fw have "packetWrite ?E ?X ?w = Inr (off, w') \<and>
      fileWrites (imf w') = fileWrites (imf ?w) @
        [\<lparr>atLogical = unusedLogicalStart (imf ?w),
          byteCount = 12, content = DataPacketBytes pkt\<rparr>]"
    by simp
  then have s2: "\<exists>off w' pkt.
      packetWrite ?E ?X ?w = Inr (off, w') \<and>
      fileWrites (imf w') = fileWrites (imf ?w) @
        [\<lparr>atLogical = unusedLogicalStart (imf ?w),
          byteCount = 12, content = DataPacketBytes pkt\<rparr>]"
    by (intro exI)
  obtain w'' where zr: "packetWriteZeroRecords ?X constructedWriter = Inr ((), w'')"
    by (simp add: constructedWriter_def model_defs padZeroRecords_6)
  from data_packet_length [where X = ?X and w = constructedWriter and u = "()" and w'' = w'',
         THEN conjunct2, THEN conjunct1, THEN mp, OF zr]
  obtain zpkt where "fileWrites (imf w'') = fileWrites (imf constructedWriter) @
        [\<lparr>atLogical = unusedLogicalStart (imf constructedWriter), byteCount = 8,
          content = DataPacketBytes zpkt\<rparr>]"
    by (elim exE)
  with zr have "packetWriteZeroRecords ?X constructedWriter = Inr ((), w'') \<and>
      fileWrites (imf w'') = fileWrites (imf constructedWriter) @
        [\<lparr>atLogical = unusedLogicalStart (imf constructedWriter), byteCount = 8,
          content = DataPacketBytes zpkt\<rparr>]"
    by simp
  then have z: "\<exists>w'' pkt.
      packetWriteZeroRecords ?X constructedWriter = Inr ((), w'') \<and>
      fileWrites (imf w'') = fileWrites (imf constructedWriter) @
        [\<lparr>atLogical = unusedLogicalStart (imf constructedWriter), byteCount = 8,
          content = DataPacketBytes pkt\<rparr>]"
    by (intro exI)
  show ?thesis
    by (intro conjI) (rule n1 t1 k1 p1 r1 ra a1 pad f1 n2 t2 k2 s2 z)+

qed

subsection \<open>The share of each bytestream\<close>

text \<open>
  Claim C5, for a number of bytestreams that leaves room for payload (at most 32764, so that
  \<open>maxPayload = DATA_PACKET_MAX - 6 - N * 2\<close> is positive). When the total output is below
  \<open>maxPayload\<close>, the count of each bytestream is its available output. Otherwise it is the
  product of \<open>(maxPayload - 1) / total\<close> and the available output, rounded down, where the
  quotient and the product are the single precision operations of the source; the sum of the
  counts does not exceed \<open>maxPayload\<close>, and each count differs by at most one from the
  floor of the exact quotient \<open>(maxPayload - 1) * available / total\<close>.
\<close>

theorem packetCounts_shares:
  assumes "length avail \<le> 32764"
  shows "cPacketMaxPayloadBytes (length avail)
           = DATA_PACKET_MAX - sizeof_DataPacketHeader - length avail * sizeof_uint16 \<and>
         (sum_list avail < cPacketMaxPayloadBytes (length avail) \<longrightarrow>
            packetCounts avail = Inr avail) \<and>
         (cPacketMaxPayloadBytes (length avail) \<le> sum_list avail \<longrightarrow>
            (\<exists>count.
               packetCounts avail = Inr count \<and>
               count = map (\<lambda>a. ffloor (fmul
                              (fdiv (of_size (cPacketMaxPayloadBytes (length avail) - 1))
                                    (of_size (sum_list avail)))
                              (of_size a))) avail \<and>
               sum_list count \<le> cPacketMaxPayloadBytes (length avail) \<and>
               (\<forall>i < length avail.
                  \<bar>int (count ! i) -
                   \<lfloor>real (cPacketMaxPayloadBytes (length avail) - 1) * real (avail ! i)
                      / real (sum_list avail)\<rfloor>\<bar> \<le> 1)))"
proof -
  define P where "P = cPacketMaxPayloadBytes (length avail)"
  define T where "T = sum_list avail"
  define g where "g = (\<lambda>a. ffloor (fmul (fdiv (of_size (P - 1)) (of_size T)) (of_size a)))"
  from cPacketMaxPayloadBytes_small [OF assms]
  have P: "P = DATA_PACKET_MAX - sizeof_DataPacketHeader - length avail * sizeof_uint16"
    "2 \<le> P" "P \<le> 65530" unfolding P_def by simp_all
  have Q: "P - 1 \<le> 65529" using P by simp
  have sub: "size_t_sub (cPacketMaxPayloadBytes (length avail)) (Suc 0)
               = cPacketMaxPayloadBytes (length avail) - Suc 0"
    using P unfolding P_def by (simp add: size_t_sub_def)
  have fit: "T < P \<Longrightarrow> packetCounts avail = Inr avail"
    unfolding P_def T_def by (simp add: packetCounts_def)
  have big: "packetCounts avail = Inr (map g avail) \<and> sum_list (map g avail) \<le> P \<and>
       (\<forall>i < length avail. \<bar>int (map g avail ! i) -
             \<lfloor>real (P - 1) * real (avail ! i) / real T\<rfloor>\<bar> \<le> 1)" if "P \<le> T"
  proof -
    from that P have Tp: "0 < T" by simp
    have le: "\<And>a. a \<in> set avail \<Longrightarrow> a \<le> T" unfolding T_def by (rule elem_le_sum_list)
    have small: "\<forall>a \<in> set avail. g a < 2 ^ 32"
    proof
      fix a assume "a \<in> set avail"
      from share_facts(3) [OF Tp le [OF this] Q] have "g a \<le> P - 1" unfolding g_def .
      with Q show "g a < 2 ^ 32" by simp
    qed
    have pc: "packetCounts avail = proportionalCounts (fdiv (of_size (P - 1)) (of_size T)) avail"
      using that unfolding P_def T_def packetCounts_def Let_def
      by (simp add: sub)
    have r: "packetCounts avail = Inr (map g avail)"
      unfolding pc proportionalCounts_Inr using small unfolding g_def by simp
    have s: "sum_list (map g avail) \<le> P"
      using share_sum [of avail "P - 1"] Tp Q unfolding g_def T_def by simp
    have fl: "\<forall>i < length avail. \<bar>int (map g avail ! i) -
             \<lfloor>real (P - 1) * real (avail ! i) / real T\<rfloor>\<bar> \<le> 1"
    proof (intro allI impI)
      fix i assume i: "i < length avail"
      define x where "x = real (P - 1) * real (avail ! i) / real T"
      from i have "avail ! i \<in> set avail" by simp
      from share_facts(1,2) [OF Tp le [OF this] Q]
      have "real (g (avail ! i)) < x + 1" "x - 2 < real (g (avail ! i))"
        unfolding g_def x_def by simp_all
      then have "int (g (avail ! i)) \<le> \<lfloor>x\<rfloor> + 1" "\<lfloor>x\<rfloor> - 1 \<le> int (g (avail ! i))"
        by linarith+
      then show "\<bar>int (map g avail ! i) - \<lfloor>real (P - 1) * real (avail ! i) / real T\<rfloor>\<bar> \<le> 1"
        using i unfolding x_def by simp
    qed
    from r s fl show ?thesis by simp
  qed
  show ?thesis
    unfolding P_def [symmetric] T_def [symmetric]
    using P(1) fit big unfolding g_def by simp
qed

text \<open>
  Two bytestreams with 60000000 and 5525001 bytes: \<open>maxPayload\<close> is 65526 and the counts are
  60000 and 5525 (the exact quotient of the first one is just below 60000). One bytestream with
  three bytes is drained.
\<close>

theorem packetCounts_shares_witness:
  "length [60000000, 5525001 :: nat] \<le> 32764 \<and>
   cPacketMaxPayloadBytes (length [60000000, 5525001 :: nat]) = 65526 \<and>
   cPacketMaxPayloadBytes (length [60000000, 5525001 :: nat]) \<le> sum_list [60000000, 5525001] \<and>
   packetCounts [60000000, 5525001] = Inr [60000, 5525] \<and>
   sum_list [60000, 5525 :: nat] \<le> cPacketMaxPayloadBytes (length [60000000, 5525001 :: nat]) \<and>
   \<lfloor>real (65526 - 1) * real 60000000 / real (sum_list [60000000, 5525001])\<rfloor> = 59999 \<and>
   sum_list [3 :: nat] < cPacketMaxPayloadBytes (length [3 :: nat]) \<and>
   packetCounts [3] = Inr [3]"
  using packetCounts_shares [of "[60000000, 5525001]"] packetCounts_shares [of "[3]"]
    packetCounts_example packetCounts_small_example exact_example
  by (simp add: cPacketMaxPayloadBytes_def size_t_sub_def DATA_PACKET_MAX_def
        sizeof_DataPacketHeader_def sizeof_uint16_def)

subsection \<open>The length table\<close>

lemma pigeonhole_sum_list:
  "0 < sum_list as \<Longrightarrow> \<exists>a \<in> set as. sum_list as \<le> a * length (as :: nat list)"
proof (rule ccontr)
  assume pos: "0 < sum_list as" and "\<not> (\<exists>a \<in> set as. sum_list as \<le> a * length as)"
  then have lt: "\<forall>a \<in> set as. a * length as < sum_list as" by auto
  have ne: "as \<noteq> []" using pos by auto
  define m where "m = Max (set as)"
  have mem: "m \<in> set as" unfolding m_def using ne by (intro Max_in) simp_all
  have "\<forall>a \<in> set as. a \<le> m" unfolding m_def by simp
  then have "sum_list as \<le> m * length as"
    by (induction as) (auto simp add: algebra_simps add_mono)
  with lt mem show False by force
qed

lemma packetCounts_length:
  "packetCounts avail = Inr count \<Longrightarrow> length count = length avail"
  by (auto simp add: packetCounts_def Let_def proportionalCounts_Inr split: if_splits)

lemma cPacketMaxPayloadBytes_32765: "cPacketMaxPayloadBytes 32765 = 0"
  by (simp add: cPacketMaxPayloadBytes_def size_t_sub_def DATA_PACKET_MAX_def
        sizeof_DataPacketHeader_def sizeof_uint16_def)

lemma no_counts_without_payload:
  assumes "length avail = 32765" and "0 < sum_list avail"
  shows "packetCounts avail \<noteq> Inr count"
proof
  assume r: "packetCounts avail = Inr count"
  define T where "T = sum_list avail"
  define Q :: nat where "Q = 2 ^ 64 - 1"
  define g where "g = (\<lambda>a. ffloor (fmul (fdiv (of_size Q) (of_size T)) (of_size a)))"
  have Tp: "0 < T" using assms(2) by (simp add: T_def)
  have sub: "size_t_sub 0 (Suc 0) = Q" by (simp add: size_t_sub_def Q_def)
  from r have "proportionalCounts (fdiv (of_size Q) (of_size T)) avail = Inr count"
    unfolding packetCounts_def Let_def assms(1) cPacketMaxPayloadBytes_32765 T_def
    by (simp add: sub)
  then have small: "\<forall>a \<in> set avail. g a < 2 ^ 32"
    unfolding proportionalCounts_Inr g_def by simp
  from pigeonhole_sum_list [OF assms(2)] obtain a where
    a: "a \<in> set avail" and big: "T \<le> a * 32765" unfolding T_def assms(1) by auto
  have "(1::real) / 2 \<le> 1 - 1 / 65530" by simp
  with float_down_small have L: "1 / 2 \<le> (1 - float_eps) ^ 4 / (1 + float_eps)"
    by linarith
  have "real T \<le> real a * 32765" using big by (metis of_nat_le_iff of_nat_mult of_nat_numeral)
  then have "1 / 32765 \<le> real a / real T" using Tp by (simp add: pos_le_divide_eq)
  then have "real Q * (1 / 32765) \<le> real Q * (real a / real T)"
    by (intro mult_left_mono) simp_all
  then have x: "real Q / 32765 \<le> real Q * real a / real T" by simp
  have x0: "0 \<le> real Q * real a / real T" by simp
  have "real Q / 32765 * (1 / 2) \<le> real Q * real a / real T * ((1 - float_eps) ^ 4 / (1 + float_eps))"
    by (rule mult_mono [OF x L]) (use x0 in simp_all)
  with share_lower [OF Tp, of Q a] have "real Q / 32765 * (1 / 2) - 1 < real (g a)"
    unfolding g_def by linarith
  moreover have "(2::real) ^ 32 \<le> real Q / 32765 * (1 / 2) - 1" by (simp add: Q_def)
  ultimately have "(2::real) ^ 32 < real (g a)" by linarith
  then have "2 ^ 32 < g a" by (metis of_nat_less_iff of_nat_numeral of_nat_power)
  with small a show False by force
qed

lemma packetCounts_proportional:
  assumes "length avail \<le> 32764"
    and "cPacketMaxPayloadBytes (length avail) \<le> sum_list avail"
    and "packetCounts avail = Inr count"
  shows "count = map (\<lambda>a. ffloor (fmul
                    (fdiv (of_size (cPacketMaxPayloadBytes (length avail) - 1))
                          (of_size (sum_list avail)))
                    (of_size a))) avail"
proof -
  from cPacketMaxPayloadBytes_small [OF assms(1)]
  have "size_t_sub (cPacketMaxPayloadBytes (length avail)) (Suc 0)
          = cPacketMaxPayloadBytes (length avail) - Suc 0"
    by (simp add: size_t_sub_def)
  with assms(2,3) show ?thesis
    by (simp add: packetCounts_def Let_def proportionalCounts_Inr)
qed

text \<open>
  Claim C10. In an invocation of \<^verbatim>\<open>packetWrite\<close> that has output to write, computes its
  counts and stores the length table inside the packet buffer, every count is below
  \<open>2 ^ 16\<close>, and the 16-bit values stored in \<^verbatim>\<open>bytestreamBufferLength\<close> are the counts.
  (The other invocations leave defined behaviour: with 32765 bytestreams the conversion of
  the share to \<^verbatim>\<open>unsigned\<close> overflows, with more the table is stored behind the buffer.)
\<close>

theorem bytestreamBufferLength_not_truncated:
  assumes "0 < sum_list avail"
    and "packetCounts avail = Inr count"
    and "bsbLength count = Inr bsb"
  shows "(\<forall>c \<in> set count. c < 2 ^ 16) \<and> map unat bsb = count"
proof -
  have len: "length count = length avail" by (rule packetCounts_length [OF assms(2)])
  from assms(3) have fit: "length avail \<le> 32765" and bsb: "bsb = map of_nat count"
    unfolding len [symmetric]
    by (auto simp add: bsbLength_def DATA_PACKET_MAX_def sizeof_DataPacketHeader_def
          sizeof_uint16_def split: if_splits)
  from no_counts_without_payload [OF _ assms(1), of count] assms(2) fit
  have N: "length avail \<le> 32764" by (cases "length avail = 32765") simp_all
  define P where "P = cPacketMaxPayloadBytes (length avail)"
  from cPacketMaxPayloadBytes_small [OF N] have P: "2 \<le> P" "P \<le> 65530"
    unfolding P_def by simp_all
  have small: "\<forall>c \<in> set count. c < 2 ^ 16"
  proof (cases "sum_list avail < P")
    case True
    then have "count = avail" using assms(2) unfolding P_def by (simp add: packetCounts_def)
    moreover have "\<forall>a \<in> set avail. a < 2 ^ 16"
    proof
      fix a assume "a \<in> set avail"
      from elem_le_sum_list [OF this] True P show "a < 2 ^ 16" by simp
    qed
    ultimately show ?thesis by simp
  next
    case False
    then have T: "P \<le> sum_list avail" by simp
    from packetCounts_proportional [OF N T [unfolded P_def] assms(2)]
    have c: "count = map (\<lambda>a. ffloor (fmul (fdiv (of_size (P - 1)) (of_size (sum_list avail)))
                              (of_size a))) avail"
      unfolding P_def by auto
    have Tp: "0 < sum_list avail" by (rule assms(1))
    have Q: "P - 1 \<le> 65529" using P by simp
    show ?thesis
    proof
      fix x assume "x \<in> set count"
      then obtain a where a: "a \<in> set avail"
        and x: "x = ffloor (fmul (fdiv (of_size (P - 1)) (of_size (sum_list avail))) (of_size a))"
        unfolding c by auto
      from share_facts(3) [OF Tp elem_le_sum_list [OF a] Q] have "x \<le> P - 1" unfolding x .
      with Q show "x < 2 ^ 16" by simp
    qed
  qed
  have "map unat bsb = map (\<lambda>c. unat (of_nat c :: 16 word)) count" by (simp add: bsb)
  also have "\<dots> = map (\<lambda>c. c) count"
  proof (rule map_cong [OF refl])
    fix c assume "c \<in> set count"
    with small have "c < 2 ^ 16" by simp
    then show "unat (of_nat c :: 16 word) = c" by (simp add: unat_of_nat)
  qed
  finally show ?thesis using small by simp
qed

theorem bytestreamBufferLength_not_truncated_witness:
  "0 < sum_list [60000000, 5525001 :: nat] \<and>
   packetCounts [60000000, 5525001] = Inr [60000, 5525] \<and>
   bsbLength [60000, 5525] = Inr [60000, 5525] \<and>
   (60000 :: nat) < 2 ^ 16 \<and> (5525 :: nat) < 2 ^ 16 \<and>
   map unat [60000, 5525 :: 16 word] = [60000, 5525]"
proof -
  have b: "bsbLength [60000, 5525] = Inr [60000, 5525]"
    by (simp add: bsbLength_def DATA_PACKET_MAX_def sizeof_DataPacketHeader_def sizeof_uint16_def)
  have p: "0 < sum_list [60000000, 5525001 :: nat]" by simp
  from bytestreamBufferLength_not_truncated [OF p packetCounts_example b]
  show ?thesis using b packetCounts_example by simp
qed

subsection \<open>The loop of \<^verbatim>\<open>close\<close>\<close>

lemma sum_list_replicate_nat: "sum_list (replicate n (k::nat)) = n * k"
  by (induction n) simp_all

lemma oneByteEncoder_ops:
  "outputAvailable byteEncoderOps (oneByteEncoder i) = 1"
  "registerFlushToOutput byteEncoderOps (oneByteEncoder i) = oneByteEncoder i"
  "outputRead byteEncoderOps (oneByteEncoder i) 0 = Inr ([], oneByteEncoder i)"
  by (simp_all add: byteEncoderOps_def oneByteEncoder_def)

lemma available_manyStreams:
  "map (outputAvailable byteEncoderOps) (map oneByteEncoder [0..<n]) = replicate n 1"
  by (simp add: comp_def oneByteEncoder_ops map_replicate_const)

lemma total_manyStreams:
  "bytestreams w = map oneByteEncoder [0..<manyStreams] \<Longrightarrow>
   totalOutputAvailable byteEncoderOps w = manyStreams"
  by (simp only: totalOutputAvailable_def available_manyStreams sum_list_replicate_nat)

lemma fraction_manyStreams:
  "ffloor (fmul (fdiv (of_size 21841) (of_size 21844)) (of_size 1)) = 0"
  "ffloor (fmul (fdiv (of_size 21841) (of_size 21844)) (of_size (Suc 0))) = 0"
  by (simp_all add: float_defs)

lemma packetCounts_manyStreams:
  "packetCounts (replicate manyStreams 1) = Inr (replicate manyStreams 0)"
proof -
  have "proportionalCounts (fdiv (of_size 21841) (of_size 21844)) (replicate manyStreams 1)
          = Inr (replicate manyStreams 0)"
    unfolding proportionalCounts_Inr by (simp add: fraction_manyStreams)
  then show ?thesis
    by (simp add: packetCounts_def manyStreams_def cPacketMaxPayloadBytes_def size_t_sub_def
          DATA_PACKET_MAX_def sizeof_DataPacketHeader_def sizeof_uint16_def
          sum_list_replicate_nat)
qed

lemma outputReadAll_nothing:
  "(\<forall>e \<in> set es. outputRead E e 0 = Inr ([], e)) \<Longrightarrow> p \<le> DATA_PACKET_MAX \<Longrightarrow>
   outputReadAll E vb es (replicate (length es) 0) p = (None, [], es, p)"
  by (induction es) simp_all

lemma padPacket_43694: "padPacket 43694 43694 = Inr 43696"
  by (simp add: padPacket.simps DATA_PACKET_MAX_def)

lemma packetWrite_manyStreams:
  assumes "bytestreams w = map oneByteEncoder [0..<manyStreams]"
  shows "\<exists>off w'. packetWrite byteEncoderOps exampleCollaborators w = Inr (off, w') \<and>
           bytestreams w' = map oneByteEncoder [0..<manyStreams]"
proof -
  have tot: "totalOutputAvailable byteEncoderOps w = manyStreams"
    by (rule total_manyStreams [OF assms])
  have rd: "outputReadAll byteEncoderOps True (map oneByteEncoder [0..<manyStreams])
              (replicate manyStreams 0) 43694
            = (None, [], map oneByteEncoder [0..<manyStreams], 43694)"
    using outputReadAll_nothing
      [of "map oneByteEncoder [0..<manyStreams]" byteEncoderOps 43694 True]
    by (simp add: oneByteEncoder_ops DATA_PACKET_MAX_def)
  have bsb: "bsbLength (replicate manyStreams 0) = Inr (replicate manyStreams 0)"
    by (simp add: bsbLength_def manyStreams_def DATA_PACKET_MAX_def sizeof_DataPacketHeader_def
          sizeof_uint16_def)
  have start: "sizeof_DataPacketHeader + manyStreams * sizeof_uint16 = 43694"
    by (simp add: manyStreams_def sizeof_DataPacketHeader_def sizeof_uint16_def)
  have vb: "VALIDATE_BASIC exampleCollaborators" "dataPacketVerify exampleCollaborators = (\<lambda>pkt n. None)"
    by (simp_all add: exampleCollaborators_def)
  have pos: "manyStreams \<noteq> 0" by (simp add: manyStreams_def)
  show ?thesis
    unfolding packetWrite_def Let_def tot assms available_manyStreams packetCounts_manyStreams
    using pos
    by (simp add: bsb start rd vb packetFinish_def padPacket_43694 sum_list_replicate_nat
          writeDataPacket_eq)
qed

lemma flush_manyStreams:
  "map (registerFlushToOutput byteEncoderOps) (map oneByteEncoder [0..<n])
     = map oneByteEncoder [0..<n]"
  by (simp add: oneByteEncoder_ops)

lemma drainLoop_manyStreams:
  "bytestreams w = map oneByteEncoder [0..<manyStreams] \<Longrightarrow>
   drainLoop fuel byteEncoderOps exampleCollaborators w = None"
proof (induction fuel arbitrary: w)
  case 0
  from total_manyStreams [OF 0] show ?case by (simp add: manyStreams_def)
next
  case (Suc fuel)
  from packetWrite_manyStreams [OF Suc.prems] obtain off w' where
    pw: "packetWrite byteEncoderOps exampleCollaborators w = Inr (off, w')"
    and bs: "bytestreams w' = map oneByteEncoder [0..<manyStreams]"
    by (elim exE conjE)
  have "bytestreams (flush byteEncoderOps w') = map oneByteEncoder [0..<manyStreams]"
    by (simp add: flush_def bs oneByteEncoder_ops)
  from Suc.IH [OF this] total_manyStreams [OF Suc.prems] pw show ?case
    by (simp add: manyStreams_def)
qed

lemma makeEncoders_example:
  "makeEncoders exampleCollaborators i bs = Inr (map freshEncoder [i..<i + length bs])"
proof (induction bs arbitrary: i)
  case Nil
  then show ?case by simp
next
  case (Cons b bs)
  have "i < i + length (b # bs)" by simp
  from upt_conv_Cons [OF this]
  have u: "[i..<i + length (b # bs)] = i # [Suc i..<Suc i + length bs]" by simp
  have f: "encoderFactory exampleCollaborators i b = Inr (freshEncoder i)"
    by (simp add: exampleCollaborators_def freshEncoder_def)
  show ?case unfolding u by (simp add: f Cons.IH [of "Suc i"])
qed

lemma manyBuffers_facts:
  "length manyBuffers = manyStreams" "manyBuffers \<noteq> []"
  "map rewind manyBuffers = manyBuffers"
  "\<exists>bs. manyBuffers = exampleBuffer ''x'' 1 # bs"
proof -
  show "length manyBuffers = manyStreams" by (simp add: manyBuffers_def)
  then show "manyBuffers \<noteq> []" by (auto simp add: manyStreams_def)
  show "map rewind manyBuffers = manyBuffers"
    by (simp add: manyBuffers_def rewind_def exampleBuffer_def)
  have "0 < manyStreams" by (simp add: manyStreams_def)
  from upt_conv_Cons [OF this]
  show "\<exists>bs. manyBuffers = exampleBuffer ''x'' 1 # bs"
    by (simp add: manyBuffers_def)
qed

lemma construct_manyStreams:
  "construct byteEncoderOps exampleCollaborators exampleNode exampleFile manyBuffers
     = Inr manyStreamsConstructed"
proof -
  define es where "es = map freshEncoder [0..<manyStreams]"
  have "map (bytestreamNumber byteEncoderOps) es = map (\<lambda>i. i) [0..<manyStreams]"
    unfolding es_def by (simp add: byteEncoderOps_def freshEncoder_def comp_def)
  then have nums: "map (bytestreamNumber byteEncoderOps) es = [0..<manyStreams]" by simp
  have len: "length es = manyStreams" by (simp add: es_def)
  have "sorted (map (bytestreamNumber byteEncoderOps) es)" unfolding nums by simp
  then have srt: "sort_key (bytestreamNumber byteEncoderOps) es = es"
    by (rule sort_key_id_if_sorted)
  have mk: "makeEncoders exampleCollaborators 0 manyBuffers = Inr es"
    using makeEncoders_example [of 0 manyBuffers] by (simp add: manyBuffers_facts es_def)
  have d: "distinct (map pathName manyBuffers)"
    by (simp add: manyBuffers_def exampleBuffer_def comp_def distinct_map inj_on_def)
  obtain bs where bs: "manyBuffers = exampleBuffer ''x'' 1 # bs"
    using manyBuffers_facts(4) by blast
  have "map capacity manyBuffers = replicate (length manyBuffers) 1"
    by (simp add: manyBuffers_def exampleBuffer_def comp_def map_replicate_const)
  moreover have "capacity (hd manyBuffers) = 1" by (simp add: bs exampleBuffer_def)
  ultimately have sc: "sameCapacity manyBuffers" by (simp add: sameCapacity_def)
  have cb: "checkBuffers exampleCollaborators manyBuffers = None"
    "VALIDATION_DEEP exampleCollaborators"
    using d sc by (simp_all add: exampleCollaborators_def)
  have w: "manyStreamsConstructed =
     \<lparr>isOpen = True, sbufs = manyBuffers, bytestreams = es,
      sectionHeaderLogicalStart = 1000, sectionLogicalLength = 0, dataPhysicalOffset = 0,
      topIndexPhysicalOffset = 0, recordCount = 0, dataPacketsCount = 0, indexPacketsCount = 0,
      imf = \<lparr>unusedLogicalStart = 1032, writerCount = 1, fileWrites = []\<rparr>,
      cVector = exampleNode\<rparr>"
    by (simp add: manyStreamsConstructed_def es_def)
  show ?thesis
    unfolding w
    by (simp add: construct_def manyBuffers_facts(2) cb mk srt nums len allocateSpace_def
          incrWriterCount_def exampleFile_def sizeof_CompressedVectorSectionHeader_def)
qed

lemma fresh_ops:
  "currentRecordIndex byteEncoderOps (freshEncoder i) = 0"
  "outputAvailable byteEncoderOps (freshEncoder i) = 0"
  "processChannel byteEncoderOps (Suc 0) (freshEncoder i) = pendingByteEncoder i"
  "currentRecordIndex byteEncoderOps (pendingByteEncoder i) = Suc 0"
  "registerFlushToOutput byteEncoderOps (pendingByteEncoder i) = oneByteEncoder i"
  by (simp_all add: byteEncoderOps_def freshEncoder_def pendingByteEncoder_def
        oneByteEncoder_def processChannel_def)

lemma sum_list_const: "sum_list (map (\<lambda>i. k) xs) = length xs * (k::nat)"
  by (induction xs) simp_all

lemma size_t_sub_small: "size_t_sub (Suc 0) 0 = Suc 0" "size_t_sub (Suc 0) (Suc 0) = 0"
  by (simp_all add: size_t_sub_def)

lemma writeLoop_manyStreams:
  "writeLoop (Suc (Suc 0)) byteEncoderOps exampleCollaborators (Suc 0) manyStreamsConstructed
     = Some (Inr ((), manyStreamsConstructed
                        \<lparr>bytestreams := map pendingByteEncoder [0..<manyStreams]\<rparr>))"
proof -
  let ?w0 = "manyStreamsConstructed"
  let ?w1 = "?w0\<lparr>bytestreams := map pendingByteEncoder [0..<manyStreams]\<rparr>"
  have b0: "bytestreams ?w0 = map freshEncoder [0..<manyStreams]"
    by (simp add: manyStreamsConstructed_def)
  have "totalRecordCount byteEncoderOps (Suc 0) ?w0 = manyStreams mod 2 ^ 64"
    unfolding totalRecordCount_def b0
    by (simp add: comp_def fresh_ops size_t_sub_small sum_list_const)
  then have t0: "totalRecordCount byteEncoderOps (Suc 0) ?w0 \<noteq> 0"
    by (simp add: manyStreams_def)
  have "currentPacketSize byteEncoderOps ?w0 = 6 + manyStreams * 2 + 0"
    unfolding currentPacketSize_def totalOutputAvailable_def b0
    by (simp add: comp_def fresh_ops sum_list_const sizeof_DataPacketHeader_def sizeof_uint16_def)
  then have s0: "\<not> E57_TARGET_PACKET_SIZE \<le> currentPacketSize byteEncoderOps ?w0"
    by (simp add: manyStreams_def E57_TARGET_PACKET_SIZE_def DATA_PACKET_MAX_def)
  have p0: "?w0\<lparr>bytestreams := map (processChannel byteEncoderOps (Suc 0)) (bytestreams ?w0)\<rparr> = ?w1"
    unfolding b0 by (simp add: comp_def fresh_ops)
  have b1: "bytestreams ?w1 = map pendingByteEncoder [0..<manyStreams]" by simp
  have t1: "totalRecordCount byteEncoderOps (Suc 0) ?w1 = 0"
    unfolding totalRecordCount_def b1
    by (simp add: comp_def fresh_ops size_t_sub_small sum_list_const)
  show ?thesis by (simp add: t0 s0 p0 t1)
qed

lemma write_manyStreams:
  "writeRecords (Suc (Suc 0)) byteEncoderOps exampleCollaborators 1 manyStreamsConstructed
     = Some (Inr ((), manyStreamsWriter))"
proof -
  let ?w0 = "manyStreamsConstructed"
  obtain bs where bs: "manyBuffers = exampleBuffer ''x'' 1 # bs"
    using manyBuffers_facts(4) by blast
  have sb: "sbufs ?w0 = exampleBuffer ''x'' 1 # bs" "recordCount ?w0 = 0" "isOpen ?w0"
    by (simp_all add: manyStreamsConstructed_def bs)
  have "map rewind (sbufs ?w0) = sbufs ?w0"
    by (simp add: manyStreamsConstructed_def manyBuffers_facts(3))
  then have rw: "?w0\<lparr>sbufs := map rewind (sbufs ?w0)\<rparr> = ?w0" by simp
  have cap: "\<not> capacity (exampleBuffer ''x'' 1) < Suc 0" by (simp add: exampleBuffer_def)
  have "writeRecords (Suc (Suc 0)) byteEncoderOps exampleCollaborators (Suc 0) ?w0
          = Some (Inr ((), ?w0\<lparr>bytestreams := map pendingByteEncoder [0..<manyStreams],
                                recordCount := Suc 0\<rparr>))"
    unfolding writeRecords_def checkWriterOpen_def rw
    by (simp add: sb exampleBuffer_def writeLoop_manyStreams del: writeLoop.simps)
  then show ?thesis by (simp add: manyStreamsWriter_def)
qed

text \<open>
  Claim C6 says that the loop of \<^verbatim>\<open>close\<close> ends because every \<^verbatim>\<open>packetWrite\<close> reduces
  the output that is available. A writer is constructed for 21844 fields and one record is
  written, of which every encoder produces one byte. In \<^verbatim>\<open>close\<close> the total (21844) is not
  below \<open>maxPayload\<close> (21842), the share of each bytestream is \<open>21841 / 21844\<close> of one byte
  and is rounded down to zero: \<^verbatim>\<open>packetWrite\<close> writes a packet without data, the encoders
  keep their bytes, and the loop runs with every fuel.
\<close>

theorem close_never_returns:
  "construct byteEncoderOps exampleCollaborators exampleNode exampleFile manyBuffers
     = Inr manyStreamsConstructed \<and>
   writeRecords (Suc (Suc 0)) byteEncoderOps exampleCollaborators 1 manyStreamsConstructed
     = Some (Inr ((), manyStreamsWriter)) \<and>
   (\<forall>fuel. close fuel byteEncoderOps exampleCollaborators manyStreamsWriter = None)"
proof (intro conjI allI)
  show "construct byteEncoderOps exampleCollaborators exampleNode exampleFile manyBuffers
          = Inr manyStreamsConstructed"
    by (rule construct_manyStreams)
  show "writeRecords (Suc (Suc 0)) byteEncoderOps exampleCollaborators 1 manyStreamsConstructed
          = Some (Inr ((), manyStreamsWriter))"
    by (rule write_manyStreams)
  fix fuel
  have o: "isOpen manyStreamsWriter"
    by (simp add: manyStreamsWriter_def manyStreamsConstructed_def)
  have "bytestreams (flush byteEncoderOps
          (manyStreamsWriter\<lparr>imf := decrWriterCount (imf manyStreamsWriter), isOpen := False\<rparr>))
        = map oneByteEncoder [0..<manyStreams]"
    by (simp add: flush_def manyStreamsWriter_def fresh_ops)
  from drainLoop_manyStreams [OF this] o
  show "close fuel byteEncoderOps exampleCollaborators manyStreamsWriter = None"
    by (simp add: close_def Let_def)
qed

end
